theory Spec2Isabelle
  imports Complex_Main "HOL-Library.Char_ord" "HOL-Library.List_Lexorder" "HOL-Library.Multiset"
begin

section \<open>QuickScope: a shallow embedding of \<open>py_gadgets/tools/quickscope.py\<close>\<close>

text \<open>
  Python values are modelled as follows: \<open>int\<close> is \<^typ>\<open>int\<close>, \<open>str\<close> is
  \<^typ>\<open>string\<close> (the ASCII range of Python's code points), a \<open>set\<close> of ints is
  \<^typ>\<open>int set\<close>, a \<open>dict\<close> is an association list in insertion order, a raised
  exception is the left injection of a sum.
\<close>

datatype error = ValueError | GaiError

subsection \<open>String primitives of the Python runtime\<close>

text \<open>\<open>str.strip()\<close>: the ASCII characters for which \<open>str.isspace\<close> holds.\<close>

definition is_space :: "char \<Rightarrow> bool" where
  "is_space c = (c \<in> set [CHR 0x09, CHR 0x0A, CHR 0x0B, CHR 0x0C, CHR 0x0D,
                           CHR 0x1C, CHR 0x1D, CHR 0x1E, CHR 0x1F, CHR 0x20])"

definition strip :: "string \<Rightarrow> string" where
  "strip s = rev (dropWhile is_space (rev (dropWhile is_space s)))"

text \<open>\<open>str.lower()\<close> on ASCII letters.\<close>

definition lower_char :: "char \<Rightarrow> char" where
  "lower_char c =
     (case map_of (zip ''ABCDEFGHIJKLMNOPQRSTUVWXYZ'' ''abcdefghijklmnopqrstuvwxyz'') c of
        Some d \<Rightarrow> d
      | None \<Rightarrow> c)"

definition lower :: "string \<Rightarrow> string" where
  "lower s = map lower_char s"

text \<open>\<open>s.split(sep)\<close> for a one-character separator: \<open>"".split(",") = [""]\<close>.\<close>

fun split_acc :: "char \<Rightarrow> string \<Rightarrow> string \<Rightarrow> string list" where
  "split_acc sep cur [] = [rev cur]"
| "split_acc sep cur (x # xs) =
     (if x = sep then rev cur # split_acc sep [] xs else split_acc sep (x # cur) xs)"

definition split :: "string \<Rightarrow> char \<Rightarrow> string list" where
  "split s sep = split_acc sep [] s"

text \<open>\<open>a, b = part.split("-", 1)\<close> when the separator occurs in \<open>part\<close>.\<close>

definition split1 :: "string \<Rightarrow> char \<Rightarrow> string \<times> string" where
  "split1 s sep = (takeWhile (\<lambda>c. c \<noteq> sep) s, tl (dropWhile (\<lambda>c. c \<noteq> sep) s))"

text \<open>
  \<open>int(s)\<close> in base 10. On an ASCII string the whitespace that \<open>int\<close> skips at both
  ends is that of C's \<open>isspace\<close>: tab, line feed, vertical tab, form feed, carriage
  return and space; the separators \<open>0x1C\<close> to \<open>0x1F\<close>, which \<open>str.strip\<close> removes,
  are not skipped. One sign is allowed, digits may be grouped by single underscores, and
  a literal of more than \<open>sys.get_int_max_str_digits()\<close> digits (4300 by default) is
  refused. Anything else raises \<open>ValueError\<close>.
\<close>

definition is_c_space :: "char \<Rightarrow> bool" where
  "is_c_space c = (c \<in> set [CHR 0x09, CHR 0x0A, CHR 0x0B, CHR 0x0C, CHR 0x0D, CHR 0x20])"

definition int_strip :: "string \<Rightarrow> string" where
  "int_strip s = rev (dropWhile is_c_space (rev (dropWhile is_c_space s)))"

definition int_max_str_digits :: nat where
  "int_max_str_digits = 4300"

definition digit_of :: "char \<Rightarrow> int option" where
  "digit_of c = map_of (zip ''0123456789'' [0, 1, 2, 3, 4, 5, 6, 7, 8, 9]) c"

fun int_digits :: "int \<Rightarrow> string \<Rightarrow> error + int" where
  "int_digits acc [] = Inr acc"
| "int_digits acc [c] =
     (case digit_of c of Some d \<Rightarrow> Inr (10 * acc + d) | None \<Rightarrow> Inl ValueError)"
| "int_digits acc (c # d # cs) =
     (if c = CHR ''_'' then
        (case digit_of d of
           Some v \<Rightarrow> int_digits (10 * acc + v) cs
         | None \<Rightarrow> Inl ValueError)
      else
        (case digit_of c of
           Some v \<Rightarrow> int_digits (10 * acc + v) (d # cs)
         | None \<Rightarrow> Inl ValueError))"

fun py_nat :: "string \<Rightarrow> error + int" where
  "py_nat [] = Inl ValueError"
| "py_nat (c # cs) =
     (case digit_of c of Some d \<Rightarrow> int_digits d cs | None \<Rightarrow> Inl ValueError)"

definition py_int :: "string \<Rightarrow> error + int" where
  "py_int s =
     (case int_strip s of
        [] \<Rightarrow> Inl ValueError
      | c # cs \<Rightarrow>
          (let body = (if c = CHR ''-'' \<or> c = CHR ''+'' then cs else c # cs) in
           if int_max_str_digits < length (filter (\<lambda>d. digit_of d \<noteq> None) body)
           then Inl ValueError
           else if c = CHR ''-'' then
             (case py_nat body of Inl e \<Rightarrow> Inl e | Inr n \<Rightarrow> Inr (- n))
           else py_nat body))"

subsection \<open>Port Set Builder: \<open>parse_ports\<close>, \<open>parse_exclude\<close>\<close>

definition COMMON_PORTS :: "int list" where
  "COMMON_PORTS = [21, 22, 23, 25, 53, 80, 110, 123, 135, 139, 143, 161, 389, 443, 445,
                   465, 514, 587, 631, 636, 8080, 8443, 25565]"

text \<open>The \<open>for part in s.split(",")\<close> loop; \<open>out\<close> is the set built so far.\<close>

fun parse_ports_loop :: "string list \<Rightarrow> int set \<Rightarrow> error + int set" where
  "parse_ports_loop [] out = Inr out"
| "parse_ports_loop (part0 # rest) out =
     (let part = strip part0 in
      if part = [] then parse_ports_loop rest out
      else if CHR ''-'' \<in> set part then
        (case py_int (fst (split1 part CHR ''-'')) of
           Inl e \<Rightarrow> Inl e
         | Inr a \<Rightarrow>
             (case py_int (snd (split1 part CHR ''-'')) of
                Inl e \<Rightarrow> Inl e
              | Inr b \<Rightarrow>
                  if a > b then parse_ports_loop rest (out \<union> set [b..a])
                  else parse_ports_loop rest (out \<union> set [a..b])))
      else
        (case py_int part of
           Inl e \<Rightarrow> Inl e
         | Inr n \<Rightarrow> parse_ports_loop rest (insert n out)))"

definition parse_ports :: "string \<Rightarrow> error + int list" where
  "parse_ports s =
     (if lower s = ''common'' then Inr COMMON_PORTS
      else
        (case parse_ports_loop (split s CHR '','') {} of
           Inl e \<Rightarrow> Inl e
         | Inr out \<Rightarrow> Inr (sorted_list_of_set (Set.filter (\<lambda>p. 1 \<le> p \<and> p \<le> 65535) out))))"

definition parse_exclude :: "string option \<Rightarrow> error + int set" where
  "parse_exclude s =
     (case s of
        None \<Rightarrow> Inr {}
      | Some t \<Rightarrow>
          if t = [] then Inr {}
          else (case parse_ports t of Inl e \<Rightarrow> Inl e | Inr ps \<Rightarrow> Inr (set ps)))"

subsection \<open>Order-preserving de-duplication\<close>

text \<open>
  The loop \<open>seen=set(); out=[]; for x in xs: if x not in seen: seen.add(x); out.append(x)\<close>
  that \<open>resolve_target\<close>, \<open>expand_targets\<close> and \<open>materialize_ips\<close> each end with.
\<close>

fun dedupe :: "'a list \<Rightarrow> 'a set \<Rightarrow> 'a list \<Rightarrow> 'a list" where
  "dedupe [] seen final = final"
| "dedupe (x # xs) seen final =
     (if x \<notin> seen then dedupe xs (insert x seen) (final @ [x]) else dedupe xs seen final)"

subsection \<open>Target Resolver\<close>

text \<open>
  The standard library and the operating system are parameters of the model:
  \<open>ip_address w t\<close> says that \<open>ipaddress.ip_address(t)\<close> accepts \<open>t\<close>,
  \<open>ip_network_hosts w t\<close> is \<open>[str(ip) for ip in ipaddress.ip_network(t, strict=False).hosts()]\<close>
  (or its \<open>ValueError\<close>), \<open>getaddrinfo w t\<close> is the list of (family, address) pairs of
  \<open>loop.getaddrinfo(t, None, type=SOCK_STREAM)\<close> (or its \<open>socket.gaierror\<close>), and
  \<open>decode w\<close> is \<open>bytes.decode(errors="ignore")\<close>.
\<close>

datatype family = AF_INET | AF_INET6 | AF_OTHER

type_synonym bytes = "char list"

record world =
  ip_address :: "string \<Rightarrow> bool"
  ip_network_hosts :: "string \<Rightarrow> error + string list"
  getaddrinfo :: "string \<Rightarrow> error + (family \<times> string) list"
  decode :: "bytes \<Rightarrow> string"

definition resolve_target :: "world \<Rightarrow> string \<Rightarrow> error + string list" where
  "resolve_target w t =
     (if ip_address w t then Inr [t]
      else
        (case getaddrinfo w t of
           Inl e \<Rightarrow> Inl e
         | Inr infos \<Rightarrow>
             Inr (dedupe (map snd (filter (\<lambda>(fam, ip). fam = AF_INET \<or> fam = AF_INET6) infos)) {} [])))"

fun expand_targets_loop :: "world \<Rightarrow> string list \<Rightarrow> string list \<Rightarrow> error + string list" where
  "expand_targets_loop w [] out = Inr out"
| "expand_targets_loop w (t0 # ts) out =
     (let t = strip t0 in
      if t = [] then expand_targets_loop w ts out
      else if CHR ''/'' \<in> set t then
        (case ip_network_hosts w t of
           Inl e \<Rightarrow> Inl e
         | Inr hs \<Rightarrow> expand_targets_loop w ts (out @ hs))
      else expand_targets_loop w ts (out @ [t]))"

definition expand_targets :: "world \<Rightarrow> string list \<Rightarrow> error + string list" where
  "expand_targets w targets =
     (case expand_targets_loop w targets [] of
        Inl e \<Rightarrow> Inl e
      | Inr out \<Rightarrow> Inr (dedupe out {} []))"

fun materialize_ips_loop :: "world \<Rightarrow> string list \<Rightarrow> string list \<Rightarrow> error + string list" where
  "materialize_ips_loop w [] ips = Inr ips"
| "materialize_ips_loop w (tok # rest) ips =
     (if ip_address w tok then materialize_ips_loop w rest (ips @ [tok])
      else
        (case resolve_target w tok of
           Inl e \<Rightarrow> Inl e
         | Inr resolved \<Rightarrow> materialize_ips_loop w rest (ips @ resolved)))"

definition materialize_ips :: "world \<Rightarrow> string list \<Rightarrow> error + string list" where
  "materialize_ips w maybe_names =
     (case materialize_ips_loop w maybe_names [] of
        Inl e \<Rightarrow> Inl e
      | Inr ips \<Rightarrow> Inr (dedupe ips {} []))"

subsection \<open>Banner Prober and \<open>probe\<close>\<close>

text \<open>
  One probe talks to the network through awaited calls. \<open>net c = None\<close> says that the
  call \<open>c\<close> raises (refused, unreachable, reset, or the timeout it was given expires);
  \<open>net c = Some bs\<close> says that it completes, \<open>bs\<close> being the bytes the peer has sent
  when \<open>c\<close> is a read. \<open>reader.read(n)\<close> returns at most \<open>n\<close> of them. The second
  component of the result is the sequence of calls the probe made.
\<close>

datatype call =
    OpenConnection string int real
  | Write bytes
  | Drain
  | Read nat real
  | Close
  | WaitClosed

type_synonym net = "call \<Rightarrow> bytes option"

definition CRLF :: bytes where
  "CRLF = [CHR 0x0D, CHR 0x0A]"

definition probe :: "world \<Rightarrow> net \<Rightarrow> string \<Rightarrow> int \<Rightarrow> real \<Rightarrow> bool \<Rightarrow> (bool \<times> string) \<times> call list" where
  "probe w net ip p tmo do_banner =
     (case net (OpenConnection ip p tmo) of
        None \<Rightarrow> ((False, []), [OpenConnection ip p tmo])
      | Some _ \<Rightarrow>
          (let (b, tr) =
                 (if do_banner then
                    (case net (Write CRLF) of
                       None \<Rightarrow> ([], [Write CRLF])
                     | Some _ \<Rightarrow>
                         (case net Drain of
                            None \<Rightarrow> ([], [Write CRLF, Drain])
                          | Some _ \<Rightarrow>
                              (case net (Read 128 (min 0.6 tmo)) of
                                 None \<Rightarrow> ([], [Write CRLF, Drain, Read 128 (min 0.6 tmo)])
                               | Some data \<Rightarrow>
                                   (strip (decode w (take 128 data)),
                                    [Write CRLF, Drain, Read 128 (min 0.6 tmo)]))))
                  else ([], []))
           in (case net Close of
                 None \<Rightarrow> ((False, []), OpenConnection ip p tmo # tr @ [Close])
               | Some _ \<Rightarrow> ((True, b), OpenConnection ip p tmo # tr @ [Close, WaitClosed]))))"

subsection \<open>Probe Scheduler: \<open>run_scan\<close>\<close>

text \<open>
  A probe result is the dict \<open>{"port": .., "state": .., "banner": ..}\<close>; the report is
  the dict \<open>results\<close>, from host to the list of its results, in insertion order.
\<close>

record entry =
  port :: int
  state :: string
  banner :: string

type_synonym report = "(string \<times> entry list) list"

text \<open>\<open>{ip: [] for ip in ips}\<close>: a repeated key keeps the place of its first insertion.\<close>

definition results_init :: "string list \<Rightarrow> report" where
  "results_init ips = map (\<lambda>ip. (ip, [])) (dedupe ips {} [])"

text \<open>\<open>results[ip].append(e)\<close>; every task's \<open>ip\<close> is a key of \<open>results\<close>.\<close>

definition results_append :: "report \<Rightarrow> string \<Rightarrow> entry \<Rightarrow> report" where
  "results_append r ip e = map (\<lambda>(k, v). if k = ip then (k, v @ [e]) else (k, v)) r"

text \<open>
  The tasks of one scan run interleaved on one event loop; a task is suspended only
  at \<open>async with sem\<close> and at \<open>await probe(...)\<close>. The state of the scan holds the
  counter of the semaphore, the tasks that have not yet entered \<open>async with sem\<close>, the
  tasks inside it whose probe is in flight, the dict \<open>results\<close> and the counter
  \<open>done\<close>. Progress lines go to stderr, which the model leaves out.
\<close>

record scan_state =
  sem_value :: int
  waiting :: "(string \<times> int) list"
  in_flight :: "(string \<times> int) list"
  results :: report
  done_count :: nat

text \<open>
  An interleaving is a list of events: \<open>Acquire i\<close>, the \<open>i\<close>-th waiting task takes a
  slot of the semaphore (possible only while its counter is positive) and starts its
  probe; \<open>Complete i net\<close>, the probe of the \<open>i\<close>-th task in flight ends, the network
  having behaved as \<open>net\<close>, and the task runs to its end: it appends its result,
  releases its slot and increments \<open>done\<close>. An event that cannot happen in a state
  has no successor.
\<close>

datatype event = Acquire nat | Complete nat net

definition remove_nth :: "nat \<Rightarrow> 'a list \<Rightarrow> 'a list" where
  "remove_nth i xs = take i xs @ drop (Suc i) xs"

definition task_finish :: "world \<Rightarrow> real \<Rightarrow> bool \<Rightarrow> bool \<Rightarrow> net \<Rightarrow> report \<Rightarrow> string \<times> int \<Rightarrow> report" where
  "task_finish w tmo do_banner oo net r t =
     (case t of (ip, p) \<Rightarrow>
        (case fst (probe w net ip p tmo do_banner) of (ok, b) \<Rightarrow>
           if ok \<or> \<not> oo then
             results_append r ip
               \<lparr>port = p, state = (if ok then ''open'' else ''closed''),
                banner = (if ok then b else [])\<rparr>
           else r))"

definition step :: "world \<Rightarrow> real \<Rightarrow> bool \<Rightarrow> bool \<Rightarrow> scan_state \<Rightarrow> event \<Rightarrow> scan_state option" where
  "step w tmo do_banner oo s ev =
     (case ev of
        Acquire i \<Rightarrow>
          if i < length (waiting s) \<and> 0 < sem_value s then
            Some (s\<lparr>sem_value := sem_value s - 1,
                    waiting := remove_nth i (waiting s),
                    in_flight := in_flight s @ [waiting s ! i]\<rparr>)
          else None
      | Complete i net \<Rightarrow>
          if i < length (in_flight s) then
            Some (s\<lparr>sem_value := sem_value s + 1,
                    in_flight := remove_nth i (in_flight s),
                    results := task_finish w tmo do_banner oo net (results s) (in_flight s ! i),
                    done_count := done_count s + 1\<rparr>)
          else None)"

fun run_events :: "world \<Rightarrow> real \<Rightarrow> bool \<Rightarrow> bool \<Rightarrow> scan_state \<Rightarrow> event list \<Rightarrow> scan_state option" where
  "run_events w tmo do_banner oo s [] = Some s"
| "run_events w tmo do_banner oo s (ev # evs) =
     (case step w tmo do_banner oo s ev of
        None \<Rightarrow> None
      | Some s' \<Rightarrow> run_events w tmo do_banner oo s' evs)"

text \<open>\<open>[asyncio.create_task(task(ip, p)) for ip in ips for p in ports]\<close>\<close>

definition tasks :: "string list \<Rightarrow> int list \<Rightarrow> (string \<times> int) list" where
  "tasks ips ps = concat (map (\<lambda>ip. map (\<lambda>p. (ip, p)) ps) ips)"

definition scan_init :: "string list \<Rightarrow> int list \<Rightarrow> int \<Rightarrow> int set \<Rightarrow> scan_state" where
  "scan_init ips ps max_concurrency excl =
     \<lparr>sem_value = max_concurrency,
      waiting = tasks ips (filter (\<lambda>p. p \<notin> excl) ps),
      in_flight = [],
      results = results_init ips,
      done_count = 0\<rparr>"

text \<open>The dict comprehension that \<open>run_scan\<close> returns.\<close>

definition final_report :: "bool \<Rightarrow> report \<Rightarrow> report" where
  "final_report oo r =
     filter (\<lambda>(ip, v). v \<noteq> [] \<and> (\<not> oo \<or> list_ex (\<lambda>e. state e = ''open'') v)) r"

text \<open>
  What a call can come to: it returns a value, it raises, or (for a scan under a given
  interleaving) the interleaving does not run \<open>asyncio.gather\<close> to its end: it has an
  event that cannot happen, or it stops while a task is waiting or in flight.
\<close>

datatype 'a outcome = Returns 'a | Raises error | NoReturn

text \<open>
  \<open>asyncio.Semaphore(n)\<close> raises \<open>ValueError\<close> for \<open>n < 0\<close>. An interrupted scan
  (the \<open>CancelledError\<close> branch) is modelled in \<open>main\<close>.
\<close>

definition run_scan ::
  "world \<Rightarrow> string list \<Rightarrow> int list \<Rightarrow> real \<Rightarrow> int \<Rightarrow> bool \<Rightarrow> bool \<Rightarrow> bool \<Rightarrow> int set \<Rightarrow> event list
     \<Rightarrow> report outcome" where
  "run_scan w ips ps tmo max_concurrency do_banner prog oo excl sched =
     (if max_concurrency < 0 then Raises ValueError
      else
        (case run_events w tmo do_banner oo (scan_init ips ps max_concurrency excl) sched of
           None \<Rightarrow> NoReturn
         | Some s \<Rightarrow>
             if waiting s = [] \<and> in_flight s = [] then Returns (final_report oo (results s))
             else NoReturn))"

subsection \<open>Result Aggregator: the renderers\<close>

text \<open>
  Standard output is a list of printed items. \<open>PortLine p st b\<close> is the line
  \<open>"  {p}/tcp open{banner}"\<close> or \<open>"  {p}/tcp closed"\<close> of the pretty rendering,
  \<open>CsvRow\<close> and \<open>NdjsonRow\<close> are one row each, and \<open>JsonDoc\<close> is the one document
  that \<open>json.dumps(results, indent=2, sort_keys=True)\<close> prints.
\<close>

datatype line =
    Text string
  | HostLine string
  | PortLine int string string
  | CsvHeader
  | CsvRow string int string string
  | NdjsonRow string int string string
  | JsonDoc report

definition print_pretty :: "report \<Rightarrow> bool \<Rightarrow> line list" where
  "print_pretty r oo =
     (if r = [] then [Text (if \<not> oo then ''No results.'' else ''No open ports found.'')]
      else
        concat (map (\<lambda>(ip, entries0).
          (let entries1 = sort_key port entries0;
               entries = (if oo then filter (\<lambda>e. state e = ''open'') entries1 else entries1)
           in if oo \<and> entries = [] then []
              else HostLine ip #
                   map (\<lambda>e. if state e = ''open'' then PortLine (port e) ''open'' (banner e)
                             else PortLine (port e) ''closed'' []) entries)) r))"

text \<open>\<open>e["banner"].replace('"', '""')\<close>\<close>

definition double_quotes :: "string \<Rightarrow> string" where
  "double_quotes b = concat (map (\<lambda>c. if c = CHR 0x22 then [c, c] else [c]) b)"

definition print_csv :: "report \<Rightarrow> bool \<Rightarrow> bool \<Rightarrow> line list" where
  "print_csv r oo header =
     (if header then [CsvHeader] else []) @
     concat (map (\<lambda>(ip, entries).
       map (\<lambda>e. CsvRow ip (port e) (state e) (double_quotes (banner e)))
         (filter (\<lambda>e. \<not> (oo \<and> state e \<noteq> ''open'')) (sort_key port entries))) r)"

definition print_ndjson :: "report \<Rightarrow> bool \<Rightarrow> line list" where
  "print_ndjson r oo =
     concat (map (\<lambda>(ip, entries).
       map (\<lambda>e. NdjsonRow ip (port e) (state e) (banner e))
         (filter (\<lambda>e. \<not> (oo \<and> state e \<noteq> ''open'')) (sort_key port entries))) r)"

text \<open>\<open>sort_keys=True\<close> orders the hosts; it leaves every list as it is.\<close>

definition json_dumps :: "report \<Rightarrow> line list" where
  "json_dumps r = [JsonDoc (sort_key fst r)]"

subsection \<open>\<open>main\<close>\<close>

record args =
  arg_targets :: "string list"
  arg_ports :: string
  arg_exclude :: "string option"
  arg_timeout :: real
  arg_concurrency :: int
  arg_json :: bool
  arg_csv :: bool
  arg_ndjson :: bool
  arg_csv_header :: bool
  arg_no_banner :: bool
  arg_progress :: bool
  arg_open_only :: bool

text \<open>The defaults of \<open>build_parser\<close> for given targets.\<close>

definition default_args :: "string list \<Rightarrow> args" where
  "default_args ts =
     \<lparr>arg_targets = ts, arg_ports = ''common'', arg_exclude = None, arg_timeout = 1.2,
      arg_concurrency = 1024, arg_json = False, arg_csv = False, arg_ndjson = False,
      arg_csv_header = False, arg_no_banner = False, arg_progress = False,
      arg_open_only = True\<rparr>"

text \<open>The first \<open>try\<close> block of \<open>main\<close>: any exception in it ends the run with code 2.\<close>

definition read_input :: "world \<Rightarrow> args \<Rightarrow> error + (string list \<times> int list \<times> int set)" where
  "read_input w a =
     (case expand_targets w (arg_targets a) of
        Inl e \<Rightarrow> Inl e
      | Inr tokens \<Rightarrow>
          (case parse_ports (arg_ports a) of
             Inl e \<Rightarrow> Inl e
           | Inr ps \<Rightarrow>
               if ps = [] then Inl ValueError
               else
                 (case parse_exclude (arg_exclude a) of
                    Inl e \<Rightarrow> Inl e
                  | Inr excl \<Rightarrow> Inr (tokens, ps, excl))))"

definition render :: "args \<Rightarrow> report \<Rightarrow> line list" where
  "render a r =
     (if arg_json a then json_dumps r
      else if arg_csv a then print_csv r (arg_open_only a) (arg_csv_header a)
      else if arg_ndjson a then print_ndjson r (arg_open_only a)
      else print_pretty r (arg_open_only a))"

text \<open>
  \<open>main\<close> returns the exit code and what it printed on standard output; messages on
  stderr are left out. \<open>ctrl_c\<close> says that the user interrupts the run while the second
  \<open>try\<close> block is executing; \<open>sched\<close> is the interleaving of the scan. An exception
  that \<open>main\<close> does not catch leaves it.
\<close>

definition main :: "world \<Rightarrow> args \<Rightarrow> bool \<Rightarrow> event list \<Rightarrow> (int \<times> line list) outcome" where
  "main w a ctrl_c sched =
     (case read_input w a of
        Inl e \<Rightarrow> Returns (2, [])
      | Inr (tokens, ps, excl) \<Rightarrow>
          if ctrl_c then Returns (130, [])
          else
            (case materialize_ips w tokens of
               Inl e \<Rightarrow> Raises e
             | Inr ips \<Rightarrow>
                 if ips = [] then Returns (2, [])
                 else
                   (case run_scan w ips ps (arg_timeout a) (arg_concurrency a)
                           (\<not> arg_no_banner a) (arg_progress a) (arg_open_only a) excl sched of
                      NoReturn \<Rightarrow> NoReturn
                    | Raises e \<Rightarrow> Raises e
                    | Returns r \<Rightarrow> Returns (0, render a r))))"

section \<open>Verification\<close>

subsection \<open>Port Set Builder\<close>

text \<open>
  The specification's reading of a port string, to compare \<open>parse_ports\<close> with: the
  segments are the comma-separated pieces, stripped, the empty ones left out; a segment
  is a single integer or a range \<open>low-high\<close>, whose bounds are swapped when they come in
  descending order.
\<close>

definition segments :: "string \<Rightarrow> string list" where
  "segments s = filter (\<lambda>p. p \<noteq> []) (map strip (split s CHR '',''))"

definition segment_value :: "string \<Rightarrow> error + int set" where
  "segment_value seg =
     (if CHR ''-'' \<in> set seg then
        (case (py_int (fst (split1 seg CHR ''-'')), py_int (snd (split1 seg CHR ''-''))) of
           (Inr lo, Inr hi) \<Rightarrow> Inr {min lo hi .. max lo hi}
         | _ \<Rightarrow> Inl ValueError)
      else (case py_int seg of Inr n \<Rightarrow> Inr {n} | Inl e \<Rightarrow> Inl ValueError))"

definition well_formed :: "string \<Rightarrow> bool" where
  "well_formed seg = (\<not> isl (segment_value seg))"

definition segment_ports :: "string \<Rightarrow> int set" where
  "segment_ports seg = (case segment_value seg of Inr S \<Rightarrow> S | Inl e \<Rightarrow> {})"

lemma finite_segment_ports: "finite (segment_ports seg)"
  by (auto simp: segment_ports_def segment_value_def split: sum.splits)

lemma int_digits_error: "int_digits acc cs = Inl e \<Longrightarrow> e = ValueError"
  by (induction acc cs rule: int_digits.induct) (auto split: option.splits if_splits)

lemma py_nat_error: "py_nat cs = Inl e \<Longrightarrow> e = ValueError"
  by (cases cs) (auto split: option.splits dest: int_digits_error)

lemma py_int_error: "py_int s = Inl e \<Longrightarrow> e = ValueError"
  by (auto simp: py_int_def Let_def simp del: py_nat.simps split: list.splits if_splits sum.splits
           dest: py_nat_error)

lemma parse_ports_loop_eq:
  "parse_ports_loop parts out =
     (if list_all well_formed (filter (\<lambda>p. p \<noteq> []) (map strip parts))
      then Inr (out \<union> (\<Union>seg \<in> set (filter (\<lambda>p. p \<noteq> []) (map strip parts)). segment_ports seg))
      else Inl ValueError)"
proof (induction parts arbitrary: out)
  case Nil
  show ?case by simp
next
  case (Cons part0 rest)
  show ?case
  proof (cases "strip part0 = []")
    case True
    then show ?thesis using Cons.IH by simp
  next
    case False
    show ?thesis
    proof (cases "segment_value (strip part0)")
      case (Inl e)
      then show ?thesis using False
        by (auto simp: well_formed_def segment_value_def Let_def split: sum.splits if_splits
                 dest: py_int_error)
    next
      case (Inr S)
      then show ?thesis using False Cons.IH
        by (auto simp: well_formed_def segment_value_def segment_ports_def Let_def min_def max_def
                 split: sum.splits if_splits)
    qed
  qed
qed

text \<open>
  C6. For a port string that is not the alias: when every segment is a single integer
  or a range, \<open>parse_ports\<close> returns the ports of all segments (a range \<open>low-high\<close>
  with its bounds swapped when \<open>low > high\<close>) that lie in \<open>[1, 65535]\<close>, each once, in
  ascending order; otherwise it raises \<open>ValueError\<close>. In particular
  \<open>parse_ports("5-7,7-9,22") = [5,6,7,8,9,22]\<close>.
\<close>

theorem parse_ports_spec:
  assumes "lower s \<noteq> ''common''"
  shows "(if list_all well_formed (segments s)
          then \<exists>ps. parse_ports s = Inr ps \<and> sorted ps \<and> distinct ps \<and>
                 set ps = {p \<in> (\<Union>seg \<in> set (segments s). segment_ports seg). 1 \<le> p \<and> p \<le> 65535}
          else parse_ports s = Inl ValueError)
         \<and> parse_ports ''5-7,7-9,22'' = Inr [5, 6, 7, 8, 9, 22]"
proof -
  have fin: "finite (\<Union>seg \<in> set (segments s). segment_ports seg)"
    by (simp add: finite_segment_ports)
  have ex: "parse_ports ''5-7,7-9,22'' = Inr [5, 6, 7, 8, 9, 22]"
    by code_simp
  have gen: "if list_all well_formed (segments s)
          then \<exists>ps. parse_ports s = Inr ps \<and> sorted ps \<and> distinct ps \<and>
                 set ps = {p \<in> (\<Union>seg \<in> set (segments s). segment_ports seg). 1 \<le> p \<and> p \<le> 65535}
          else parse_ports s = Inl ValueError"
    using assms fin
    by (auto simp: parse_ports_def parse_ports_loop_eq segments_def)
  from gen ex show ?thesis by blast
qed

theorem parse_ports_spec_witness:
  "lower ''443, 9-7,,+8_0'' \<noteq> ''common'' \<and> list_all well_formed (segments ''443, 9-7,,+8_0'') \<and>
   (\<exists>ps. parse_ports ''443, 9-7,,+8_0'' = Inr ps \<and> sorted ps \<and> distinct ps \<and>
      set ps = {p \<in> (\<Union>seg \<in> set (segments ''443, 9-7,,+8_0''). segment_ports seg). 1 \<le> p \<and> p \<le> 65535})
   \<and> parse_ports ''443, 9-7,,+8_0'' = Inr [7, 8, 9, 80, 443]"
proof -
  have h: "lower ''443, 9-7,,+8_0'' \<noteq> ''common''"
    by code_simp
  have wf: "list_all well_formed (segments ''443, 9-7,,+8_0'')"
    by code_simp
  have v: "parse_ports ''443, 9-7,,+8_0'' = Inr [7, 8, 9, 80, 443]"
    by code_simp
  from parse_ports_spec [OF h] wf h v show ?thesis
    by simp
qed

text \<open>
  \<open>str.strip\<close> and \<open>int\<close> differ on the separators \<open>0x1C\<close> to \<open>0x1F\<close>: at the end
  of a segment \<open>part.strip()\<close> removes one, at the end of a bound of a range \<open>int\<close>
  refuses it. A literal of more than 4300 digits is refused.
\<close>

lemma parse_ports_separators:
  "parse_ports [CHR ''5'', CHR 0x1C, CHR '','', CHR ''7''] = Inr [5, 7] \<and>
   parse_ports [CHR ''5'', CHR 0x1C, CHR ''-'', CHR ''7''] = Inl ValueError \<and>
   parse_ports ''5 - 7,  9'' = Inr [5, 6, 7, 9]"
  by code_simp

lemma py_int_digit_limit:
  assumes "int_strip s = c # cs" and "c \<noteq> CHR ''-''" and "c \<noteq> CHR ''+''"
    and "4300 < length (filter (\<lambda>d. digit_of d \<noteq> None) (c # cs))"
  shows "py_int s = Inl ValueError"
  using assms by (simp add: py_int_def int_max_str_digits_def Let_def del: py_nat.simps)

subsection \<open>Probe Scheduler: invariants of every interleaving\<close>

lemma length_remove_nth: "i < length xs \<Longrightarrow> length (remove_nth i xs) = length xs - 1"
  by (simp add: remove_nth_def)

lemma mset_remove_nth: "i < length xs \<Longrightarrow> mset (remove_nth i xs) + {#xs ! i#} = mset xs"
proof -
  assume "i < length xs"
  then have "xs = take i xs @ xs ! i # drop (Suc i) xs"
    by (simp add: id_take_nth_drop)
  then have "mset xs = mset (take i xs @ xs ! i # drop (Suc i) xs)"
    by simp
  then show ?thesis by (simp add: remove_nth_def)
qed

lemma set_remove_nth: "set (remove_nth i xs) \<subseteq> set xs"
  unfolding remove_nth_def by (auto dest: in_set_takeD in_set_dropD)

lemma run_events_invariant:
  assumes "run_events w tmo db oo s evs = Some s'"
    and "P s"
    and "\<And>s ev s'. P s \<Longrightarrow> step w tmo db oo s ev = Some s' \<Longrightarrow> P s'"
  shows "P s'"
  using assms(1,2)
proof (induction evs arbitrary: s)
  case Nil
  then show ?case by simp
next
  case (Cons ev evs)
  then obtain s1 where s1: "step w tmo db oo s ev = Some s1"
    and rest: "run_events w tmo db oo s1 evs = Some s'"
    by (auto split: option.splits)
  from assms(3) [OF Cons.prems(2) s1] have "P s1" .
  with Cons.IH rest show ?case by blast
qed

lemma step_sem:
  "step w tmo db oo s ev = Some s' \<Longrightarrow>
     sem_value s' + int (length (in_flight s')) = sem_value s + int (length (in_flight s))"
  by (auto simp: step_def length_remove_nth split: event.splits if_splits)

lemma step_sem_nonneg:
  "step w tmo db oo s ev = Some s' \<Longrightarrow> 0 \<le> sem_value s \<Longrightarrow> 0 \<le> sem_value s'"
  by (auto simp: step_def split: event.splits if_splits)

definition is_completion :: "event \<Rightarrow> bool" where
  "is_completion ev = (case ev of Complete i net \<Rightarrow> True | Acquire i \<Rightarrow> False)"

lemma step_count:
  "step w tmo db oo s ev = Some s' \<Longrightarrow>
     length (waiting s') + length (in_flight s') + done_count s' =
     length (waiting s) + length (in_flight s) + done_count s"
  by (auto simp: step_def length_remove_nth split: event.splits if_splits)

lemma step_done:
  "step w tmo db oo s ev = Some s' \<Longrightarrow>
     done_count s' = done_count s + (if is_completion ev then 1 else 0)"
  by (auto simp: step_def is_completion_def split: event.splits if_splits)

lemma run_events_done:
  "run_events w tmo db oo s evs = Some s' \<Longrightarrow>
     done_count s' = done_count s + length (filter is_completion evs)"
proof (induction evs arbitrary: s)
  case Nil
  then show ?case by simp
next
  case (Cons ev evs)
  then obtain s1 where s1: "step w tmo db oo s ev = Some s1"
    and rest: "run_events w tmo db oo s1 evs = Some s'"
    by (auto split: option.splits)
  from Cons.IH [OF rest] step_done [OF s1] show ?case by simp
qed

lemma run_events_count:
  assumes "run_events w tmo db oo s evs = Some s'"
  shows "length (waiting s') + length (in_flight s') + done_count s' =
         length (waiting s) + length (in_flight s) + done_count s"
  by (rule run_events_invariant [OF assms, where P = "\<lambda>t. length (waiting t) + length (in_flight t) + done_count t =
         length (waiting s) + length (in_flight s) + done_count s"]) (simp_all add: step_count)

lemma run_events_sem:
  assumes "run_events w tmo db oo s evs = Some s'"
  shows "sem_value s' + int (length (in_flight s')) = sem_value s + int (length (in_flight s))"
  by (rule run_events_invariant [OF assms, where P = "\<lambda>t. sem_value t + int (length (in_flight t)) =
         sem_value s + int (length (in_flight s))"]) (simp_all add: step_sem)

lemma run_events_sem_nonneg:
  assumes "run_events w tmo db oo s evs = Some s'" and "0 \<le> sem_value s"
  shows "0 \<le> sem_value s'"
  by (rule run_events_invariant [OF assms(1), where P = "\<lambda>t. 0 \<le> sem_value t"])
     (simp_all add: assms(2) step_sem_nonneg)

text \<open>
  C9. A scan with a negative capacity raises before any task exists. Otherwise, in every
  state that an interleaving of a scan of capacity \<open>max_concurrency\<close> reaches, the
  number of probes in flight is at most \<open>max_concurrency\<close>: each of them holds one
  slot of the semaphore, whose counter is the capacity minus the probes in flight and
  never negative. The default capacity is 1024.
\<close>

theorem concurrency_bound:
  "(max_concurrency < 0 \<longrightarrow>
      run_scan w ips ps tmo max_concurrency db pr oo excl sched = Raises ValueError) \<and>
   (0 \<le> max_concurrency \<and>
    run_events w tmo db oo (scan_init ips ps max_concurrency excl) evs = Some s \<longrightarrow>
      int (length (in_flight s)) \<le> max_concurrency \<and>
      sem_value s = max_concurrency - int (length (in_flight s)) \<and> 0 \<le> sem_value s) \<and>
   arg_concurrency (default_args ts) = 1024"
proof (intro conjI impI)
  assume "max_concurrency < 0"
  then show "run_scan w ips ps tmo max_concurrency db pr oo excl sched = Raises ValueError"
    by (simp add: run_scan_def)
next
  assume a: "0 \<le> max_concurrency \<and>
    run_events w tmo db oo (scan_init ips ps max_concurrency excl) evs = Some s"
  then have run: "run_events w tmo db oo (scan_init ips ps max_concurrency excl) evs = Some s"
    by simp
  from run_events_sem [OF run]
  have eq: "sem_value s + int (length (in_flight s)) = max_concurrency"
    by (simp add: scan_init_def)
  from run_events_sem_nonneg [OF run] a have nn: "0 \<le> sem_value s"
    by (simp add: scan_init_def)
  from eq nn show "int (length (in_flight s)) \<le> max_concurrency" by linarith
  from eq show "sem_value s = max_concurrency - int (length (in_flight s))" by linarith
  from nn show "0 \<le> sem_value s" .
next
  show "arg_concurrency (default_args ts) = 1024"
    by (simp add: default_args_def)
qed

text \<open>An example world, and two behaviours of the network, for concrete runs.\<close>

definition w0 :: world where
  "w0 = \<lparr>ip_address = (\<lambda>t. t \<in> set [''10.0.0.1'', ''10.0.0.2'', ''192.168.0.1'', ''192.168.0.2'']),
         ip_network_hosts = (\<lambda>t. if t = ''192.168.0.0/30'' then Inr [''192.168.0.1'', ''192.168.0.2'']
                                  else Inl ValueError),
         getaddrinfo = (\<lambda>t. if t = ''a.example''
                             then Inr [(AF_INET, ''10.0.0.1''), (AF_INET6, ''::1''), (AF_INET, ''10.0.0.1'')]
                             else Inl GaiError),
         decode = (\<lambda>bs. bs)\<rparr>"

definition up :: net where "up = (\<lambda>c. Some ''SSH-2.0 '')"
definition down :: net where "down = (\<lambda>c. None)"

lemma ev1: "run_events w0 1.2 True True (scan_init [''10.0.0.1''] [22, 80] 1 {}) [Acquire 1] =
   Some \<lparr>sem_value = 0, waiting = [(''10.0.0.1'', 22)], in_flight = [(''10.0.0.1'', 80)],
         results = [(''10.0.0.1'', [])], done_count = 0\<rparr>"
  by (simp add: scan_init_def step_def tasks_def remove_nth_def results_init_def)

theorem concurrency_bound_witness:
  "(-1 < (0::int) \<and> run_scan w0 [''10.0.0.1''] [22, 80] 1.2 (-1) True False True {} [] = Raises ValueError) \<and>
   ((0::int) \<le> 1 \<and>
    run_events w0 1.2 True True (scan_init [''10.0.0.1''] [22, 80] 1 {}) [Acquire 1] =
      Some \<lparr>sem_value = 0, waiting = [(''10.0.0.1'', 22)], in_flight = [(''10.0.0.1'', 80)],
            results = [(''10.0.0.1'', [])], done_count = 0\<rparr> \<and>
    int (length (in_flight \<lparr>sem_value = 0, waiting = [(''10.0.0.1'', 22)], in_flight = [(''10.0.0.1'', 80)],
            results = [(''10.0.0.1'', [])], done_count = 0\<rparr>)) \<le> 1)"
  using concurrency_bound [of "-1" w0 "[''10.0.0.1'']" "[22, 80]" "1.2" True False True "{}" "[]"]
        concurrency_bound [of 1 w0 "[''10.0.0.1'']" "[22, 80]" "1.2" True False True "{}" "[]" "[Acquire 1]"]
        ev1
  by simp

text \<open>All results that a report holds, host after host.\<close>

definition entries :: "report \<Rightarrow> entry list" where
  "entries r = concat (map snd r)"

lemma entries_results_append:
  "set (entries (results_append r ip e)) \<subseteq> insert e (set (entries r))"
  by (induction r) (auto simp: entries_def results_append_def split: if_splits)

lemma entries_final_report: "set (entries (final_report oo r)) \<subseteq> set (entries r)"
  by (induction r) (auto simp: entries_def final_report_def)

lemma entries_results_init: "entries (results_init ips) = []"
  by (simp add: entries_def results_init_def)

lemma task_finish_entries:
  assumes "e \<in> set (entries (task_finish w tmo db oo net r t))"
  shows "e \<in> set (entries r) \<or> (port e = snd t \<and> (state e = ''open'' \<or> \<not> oo))"
proof (cases t)
  case (Pair ip p)
  show ?thesis
  proof (cases "fst (probe w net ip p tmo db)")
    case (Pair ok b)
    show ?thesis
    proof (cases "ok \<or> \<not> oo")
      case True
      let ?e = "\<lparr>port = p, state = (if ok then ''open'' else ''closed''),
                 banner = (if ok then b else [])\<rparr>"
      from True Pair assms \<open>t = (ip, p)\<close>
      have "e \<in> set (entries (results_append r ip ?e))"
        by (simp add: task_finish_def)
      with entries_results_append [of r ip ?e] have "e = ?e \<or> e \<in> set (entries r)"
        by blast
      with True \<open>t = (ip, p)\<close> show ?thesis by auto
    next
      case False
      with Pair assms \<open>t = (ip, p)\<close> show ?thesis
        by (simp add: task_finish_def)
    qed
  qed
qed

lemma in_set_remove_nth: "x \<in> set (remove_nth i xs) \<Longrightarrow> x \<in> set xs"
  using set_remove_nth [of i xs] by blast

lemma step_tasks:
  "step w tmo db oo s ev = Some s' \<Longrightarrow>
     set (waiting s') \<union> set (in_flight s') \<subseteq> set (waiting s) \<union> set (in_flight s)"
  by (auto simp: step_def split: event.splits if_splits dest: in_set_remove_nth)

lemma step_ports:
  assumes "step w tmo db oo s ev = Some s'"
    and "snd ` (set (waiting s) \<union> set (in_flight s)) \<subseteq> A \<and> port ` set (entries (results s)) \<subseteq> A"
  shows "snd ` (set (waiting s') \<union> set (in_flight s')) \<subseteq> A \<and> port ` set (entries (results s')) \<subseteq> A"
proof
  from step_tasks [OF assms(1)] assms(2)
  show "snd ` (set (waiting s') \<union> set (in_flight s')) \<subseteq> A" by blast
next
  show "port ` set (entries (results s')) \<subseteq> A"
  proof (cases ev)
    case (Acquire i)
    with assms show ?thesis by (auto simp: step_def split: if_splits)
  next
    case (Complete i net)
    with assms(1) have i: "i < length (in_flight s)"
      and r: "results s' = task_finish w tmo db oo net (results s) (in_flight s ! i)"
      by (auto simp: step_def split: if_splits)
    from i have "in_flight s ! i \<in> set (in_flight s)" by simp
    with assms(2) have "snd (in_flight s ! i) \<in> A" by blast
    moreover have "port e \<in> A" if "e \<in> set (entries (results s'))" for e
    proof -
      from that r task_finish_entries [of e w tmo db oo net "results s" "in_flight s ! i"]
      have "e \<in> set (entries (results s)) \<or> port e = snd (in_flight s ! i)" by auto
      with assms(2) \<open>snd (in_flight s ! i) \<in> A\<close> show ?thesis by auto
    qed
    ultimately show ?thesis by blast
  qed
qed

lemma run_events_ports:
  assumes "run_events w tmo db oo s evs = Some s'"
    and "snd ` (set (waiting s) \<union> set (in_flight s)) \<subseteq> A \<and> port ` set (entries (results s)) \<subseteq> A"
  shows "port ` set (entries (results s')) \<subseteq> A"
proof -
  have "snd ` (set (waiting s') \<union> set (in_flight s')) \<subseteq> A \<and> port ` set (entries (results s')) \<subseteq> A"
    by (rule run_events_invariant [OF assms(1), where
          P = "\<lambda>t. snd ` (set (waiting t) \<union> set (in_flight t)) \<subseteq> A \<and> port ` set (entries (results t)) \<subseteq> A"])
       (simp_all add: assms(2) step_ports)
  then show ?thesis by simp
qed

lemma length_tasks: "length (tasks ips ps) = length ips * length ps"
  by (induction ips) (simp_all add: tasks_def)

lemma set_tasks: "set (tasks ips ps) = set ips \<times> set ps"
  by (auto simp: tasks_def)

lemma distinct_tasks: "distinct ips \<Longrightarrow> distinct ps \<Longrightarrow> distinct (tasks ips ps)"
proof -
  assume "distinct ips" "distinct ps"
  moreover have "tasks ips ps = List.product ips ps"
    by (induction ips) (simp_all add: tasks_def)
  ultimately show ?thesis by (simp add: distinct_product)
qed

lemma run_scan_Returns:
  assumes "run_scan w ips ps tmo n db pr oo excl sched = Returns r"
  obtains s where "0 \<le> n"
    and "run_events w tmo db oo (scan_init ips ps n excl) sched = Some s"
    and "waiting s = []" and "in_flight s = []" and "r = final_report oo (results s)"
  using assms by (auto simp: run_scan_def split: if_splits option.splits)

text \<open>
  C1. \<open>run_scan\<close> creates one task for each pair of a host of \<open>H\<close> and a port of \<open>P\<close>
  that is not in \<open>E\<close>: \<open>|H| * |P - E|\<close> tasks (counting list entries, and also as sets
  when \<open>H\<close> and \<open>P\<close> have no repetitions). A scan that returns has completed exactly
  that many probes, and no result in its report has a port of \<open>E\<close>.
\<close>

theorem run_scan_probe_count:
  "waiting (scan_init H P n E) = tasks H (filter (\<lambda>p. p \<notin> E) P) \<and>
   length (tasks H (filter (\<lambda>p. p \<notin> E) P)) = length H * length (filter (\<lambda>p. p \<notin> E) P) \<and>
   set (tasks H (filter (\<lambda>p. p \<notin> E) P)) = set H \<times> (set P - E) \<and>
   (distinct H \<and> distinct P \<longrightarrow>
      distinct (tasks H (filter (\<lambda>p. p \<notin> E) P)) \<and>
      length (tasks H (filter (\<lambda>p. p \<notin> E) P)) = card (set H) * card (set P - E)) \<and>
   (run_scan w H P tmo n db pr oo E sched = Returns r \<longrightarrow>
      length (filter is_completion sched) = length H * length (filter (\<lambda>p. p \<notin> E) P) \<and>
      (\<forall>e \<in> set (entries r). port e \<notin> E))"
proof (intro conjI impI)
  show "waiting (scan_init H P n E) = tasks H (filter (\<lambda>p. p \<notin> E) P)"
    by (simp add: scan_init_def)
  show "length (tasks H (filter (\<lambda>p. p \<notin> E) P)) = length H * length (filter (\<lambda>p. p \<notin> E) P)"
    by (rule length_tasks)
  show st: "set (tasks H (filter (\<lambda>p. p \<notin> E) P)) = set H \<times> (set P - E)"
    by (auto simp: set_tasks)
next
  assume d: "distinct H \<and> distinct P"
  then show dt: "distinct (tasks H (filter (\<lambda>p. p \<notin> E) P))"
    by (simp add: distinct_tasks)
  have "set (filter (\<lambda>p. p \<notin> E) P) = set P - E" by auto
  with d have "length (filter (\<lambda>p. p \<notin> E) P) = card (set P - E)"
    by (metis distinct_card distinct_filter)
  with d show "length (tasks H (filter (\<lambda>p. p \<notin> E) P)) = card (set H) * card (set P - E)"
    by (simp add: length_tasks distinct_card)
next
  assume ret: "run_scan w H P tmo n db pr oo E sched = Returns r"
  from ret obtain s where run: "run_events w tmo db oo (scan_init H P n E) sched = Some s"
    and fin: "waiting s = []" "in_flight s = []" and r: "r = final_report oo (results s)"
    by (rule run_scan_Returns)
  from run_events_count [OF run] run_events_done [OF run] fin
  show "length (filter is_completion sched) = length H * length (filter (\<lambda>p. p \<notin> E) P)"
    by (simp add: scan_init_def length_tasks)
  have "port ` set (entries (results s)) \<subseteq> - E"
    by (rule run_events_ports [OF run]) (auto simp: scan_init_def set_tasks entries_results_init)
  with entries_final_report [of oo "results s"] r
  show "\<forall>e \<in> set (entries r). port e \<notin> E" by auto
qed

lemma scan_example:
  "run_scan w0 [''10.0.0.1''] [22, 80, 443] 1.2 1 True False False {80}
     [Acquire 0, Complete 0 up, Acquire 0, Complete 0 down] =
   Returns [(''10.0.0.1'', [\<lparr>port = 22, state = ''open'', banner = ''SSH-2.0''\<rparr>,
                           \<lparr>port = 443, state = ''closed'', banner = []\<rparr>])]"
  by code_simp

theorem run_scan_probe_count_witness:
  "distinct [''10.0.0.1''] \<and> distinct [22, 80, 443 :: int] \<and>
   run_scan w0 [''10.0.0.1''] [22, 80, 443] 1.2 1 True False False {80}
     [Acquire 0, Complete 0 up, Acquire 0, Complete 0 down] =
   Returns [(''10.0.0.1'', [\<lparr>port = 22, state = ''open'', banner = ''SSH-2.0''\<rparr>,
                           \<lparr>port = 443, state = ''closed'', banner = []\<rparr>])] \<and>
   length (tasks [''10.0.0.1''] (filter (\<lambda>p. p \<notin> {80}) [22, 80, 443])) =
     card (set [''10.0.0.1'']) * card (set [22, 80, 443 :: int] - {80}) \<and>
   length (filter is_completion [Acquire 0, Complete 0 up, Acquire 0, Complete 0 down]) =
     length [''10.0.0.1''] * length (filter (\<lambda>p. p \<notin> {80}) [22, 80, 443 :: int]) \<and>
   list_all (\<lambda>e. port e \<notin> {80})
     (entries [(''10.0.0.1'', [\<lparr>port = 22, state = ''open'', banner = ''SSH-2.0''\<rparr>,
                              \<lparr>port = 443, state = ''closed'', banner = []\<rparr>])])"
  using run_scan_probe_count [where H = "[''10.0.0.1'']" and P = "[22, 80, 443]" and n = 1
          and E = "{80}" and w = w0 and tmo = "1.2" and db = True and pr = False and oo = False
          and sched = "[Acquire 0, Complete 0 up, Acquire 0, Complete 0 down]"
          and r = "[(''10.0.0.1'', [\<lparr>port = 22, state = ''open'', banner = ''SSH-2.0''\<rparr>,
                                   \<lparr>port = 443, state = ''closed'', banner = []\<rparr>])]"]
        scan_example
  by (simp add: list_all_iff)

subsection \<open>De-duplication keeps first occurrences\<close>

text \<open>
  The specification's de-duplication "preserving the order addresses were first
  produced": the head stays where it is, its later copies are removed.
\<close>

primrec first_seen :: "'a list \<Rightarrow> 'a list" where
  "first_seen [] = []"
| "first_seen (x # xs) = x # removeAll x (first_seen xs)"

lemma set_first_seen: "set (first_seen xs) = set xs"
  by (induction xs) auto

lemma distinct_first_seen: "distinct (first_seen xs)"
  by (induction xs) (auto simp: distinct_removeAll)

lemma dedupe_eq: "dedupe xs seen final = final @ filter (\<lambda>x. x \<notin> seen) (first_seen xs)"
proof (induction xs arbitrary: seen final)
  case Nil
  show ?case by simp
next
  case (Cons x xs)
  have "filter (\<lambda>y. y \<notin> insert x seen) ys = filter (\<lambda>y. y \<notin> seen) (removeAll x ys)" for ys
    by (induction ys) auto
  moreover have "x \<in> seen \<Longrightarrow> filter (\<lambda>y. y \<notin> seen) (removeAll x ys) = filter (\<lambda>y. y \<notin> seen) ys" for ys
    by (induction ys) auto
  ultimately show ?case using Cons.IH by simp
qed

lemma dedupe_first_seen: "dedupe xs {} [] = first_seen xs"
  by (simp add: dedupe_eq)

subsection \<open>What a scan collects\<close>

text \<open>The (host, port) pairs of the results of a report.\<close>

definition pairs :: "report \<Rightarrow> (string \<times> int) list" where
  "pairs r = concat (map (\<lambda>(ip, es). map (\<lambda>e. (ip, port e)) es) r)"

lemma fst_results_append: "map fst (results_append r ip e) = map fst r"
  by (induction r) (auto simp: results_append_def)

lemma fst_task_finish: "map fst (task_finish w tmo db oo net r t) = map fst r"
  by (cases t) (auto simp: task_finish_def fst_results_append split: prod.splits)

lemma pairs_results_append:
  "distinct (map fst r) \<Longrightarrow> ip \<in> fst ` set r \<Longrightarrow>
     mset (pairs (results_append r ip e)) = mset (pairs r) + {#(ip, port e)#}"
proof (induction r)
  case Nil
  then show ?case by simp
next
  case (Cons kv r)
  obtain k v where kv: "kv = (k, v)" by (cases kv)
  show ?case
  proof (cases "k = ip")
    case True
    with Cons.prems kv have "ip \<notin> fst ` set r" by auto
    then have "results_append r ip e = r"
      by (induction r) (auto simp: results_append_def)
    then have "map (\<lambda>(k, v). if k = ip then (k, v @ [e]) else (k, v)) r = r"
      by (simp add: results_append_def)
    with True kv show ?thesis
      by (simp add: pairs_def results_append_def)
  next
    case False
    with Cons.prems kv have "distinct (map fst r)" "ip \<in> fst ` set r" by auto
    from Cons.IH [OF this] False kv show ?thesis
      by (simp add: pairs_def results_append_def)
  qed
qed

lemma pairs_task_finish_all:
  assumes "distinct (map fst r)" and "fst t \<in> fst ` set r"
  shows "mset (pairs (task_finish w tmo db False net r t)) = mset (pairs r) + {#t#}"
proof (cases t)
  case (Pair ip p)
  with assms pairs_results_append [of r ip] show ?thesis
    by (cases "fst (probe w net ip p tmo db)") (simp add: task_finish_def)
qed

lemma step_collects_all:
  assumes "step w tmo db False s ev = Some s'"
    and "distinct (map fst (results s))"
    and "fst ` (set (waiting s) \<union> set (in_flight s)) \<subseteq> fst ` set (results s)"
  shows "map fst (results s') = map fst (results s)"
    and "mset (pairs (results s')) + mset (waiting s') + mset (in_flight s') =
         mset (pairs (results s)) + mset (waiting s) + mset (in_flight s)"
proof -
  show "map fst (results s') = map fst (results s)"
    using assms(1) by (auto simp: step_def fst_task_finish split: event.splits if_splits)
  show "mset (pairs (results s')) + mset (waiting s') + mset (in_flight s') =
         mset (pairs (results s)) + mset (waiting s) + mset (in_flight s)"
  proof (cases ev)
    case (Acquire i)
    with assms(1) have i: "i < length (waiting s)"
      and s': "results s' = results s" "waiting s' = remove_nth i (waiting s)"
              "in_flight s' = in_flight s @ [waiting s ! i]"
      by (auto simp: step_def split: if_splits)
    from mset_remove_nth [OF i] s' show ?thesis
      by (simp add: add.commute add.left_commute)
  next
    case (Complete i net)
    with assms(1) have i: "i < length (in_flight s)"
      and s': "results s' = task_finish w tmo db False net (results s) (in_flight s ! i)"
              "waiting s' = waiting s" "in_flight s' = remove_nth i (in_flight s)"
      by (auto simp: step_def split: if_splits)
    from i have "in_flight s ! i \<in> set (in_flight s)" by simp
    with assms(3) have "fst (in_flight s ! i) \<in> fst ` set (results s)" by blast
    from pairs_task_finish_all [OF assms(2) this] mset_remove_nth [OF i] s' show ?thesis
      by (simp add: add.commute add.left_commute)
  qed
qed

lemma run_events_collects_all:
  assumes "run_events w tmo db False s evs = Some s'"
    and "distinct (map fst (results s))"
    and "fst ` (set (waiting s) \<union> set (in_flight s)) \<subseteq> fst ` set (results s)"
  shows "mset (pairs (results s')) + mset (waiting s') + mset (in_flight s') =
         mset (pairs (results s)) + mset (waiting s) + mset (in_flight s)"
proof -
  let ?P = "\<lambda>t. map fst (results t) = map fst (results s) \<and>
                 set (waiting t) \<union> set (in_flight t) \<subseteq> set (waiting s) \<union> set (in_flight s) \<and>
                 mset (pairs (results t)) + mset (waiting t) + mset (in_flight t) =
                 mset (pairs (results s)) + mset (waiting s) + mset (in_flight s)"
  have "?P s'"
  proof (rule run_events_invariant [OF assms(1), where P = ?P])
    show "?P s" by simp
  next
    fix t ev t'
    assume P: "?P t" and st: "step w tmo db False t ev = Some t'"
    from P assms(2) have d: "distinct (map fst (results t))" by simp
    from P have "set (map fst (results t)) = set (map fst (results s))" by simp
    then have "fst ` set (results t) = fst ` set (results s)" by simp
    with P assms(3) have k: "fst ` (set (waiting t) \<union> set (in_flight t)) \<subseteq> fst ` set (results t)"
      by blast
    from step_collects_all [OF st d k] step_tasks [OF st] P show "?P t'"
      by auto
  qed
  then show ?thesis by simp
qed

lemma step_open_only:
  assumes "step w tmo db True s ev = Some s'"
    and "\<forall>e \<in> set (entries (results s)). state e = ''open''"
  shows "\<forall>e \<in> set (entries (results s')). state e = ''open''"
proof (cases ev)
  case (Acquire i)
  with assms show ?thesis by (auto simp: step_def split: if_splits)
next
  case (Complete i net)
  with assms(1) have r: "results s' = task_finish w tmo db True net (results s) (in_flight s ! i)"
    by (auto simp: step_def split: if_splits)
  show ?thesis
  proof
    fix e
    assume "e \<in> set (entries (results s'))"
    with r task_finish_entries [of e w tmo db True net "results s" "in_flight s ! i"]
    have "e \<in> set (entries (results s)) \<or> state e = ''open''" by auto
    with assms(2) show "state e = ''open''" by blast
  qed
qed

lemma run_events_open_only:
  assumes "run_events w tmo db True s evs = Some s'"
    and "\<forall>e \<in> set (entries (results s)). state e = ''open''"
  shows "\<forall>e \<in> set (entries (results s')). state e = ''open''"
  by (rule run_events_invariant [OF assms(1), where
        P = "\<lambda>t. \<forall>e \<in> set (entries (results t)). state e = ''open''"])
     (simp_all add: assms(2) step_open_only)

lemma final_report_nonempty: "(h, es) \<in> set (final_report oo r) \<Longrightarrow> es \<noteq> []"
  by (auto simp: final_report_def)

lemma pairs_final_report: "pairs (final_report False r) = pairs r"
  by (induction r) (auto simp: final_report_def pairs_def)

lemma pairs_results_init: "pairs (results_init ips) = []"
proof -
  have "pairs (map (\<lambda>ip. (ip, [])) xs) = []" for xs :: "string list"
    by (induction xs) (simp_all add: pairs_def)
  then show ?thesis by (simp add: results_init_def)
qed

lemma run_scan_all_pairs:
  assumes "run_scan w H P tmo n db pr False E sched = Returns r"
  shows "mset (pairs r) = mset (tasks H (filter (\<lambda>p. p \<notin> E) P))"
proof -
  from assms obtain s where run: "run_events w tmo db False (scan_init H P n E) sched = Some s"
    and fin: "waiting s = []" "in_flight s = []" and r: "r = final_report False (results s)"
    by (rule run_scan_Returns)
  have "mset (pairs (results s)) + mset (waiting s) + mset (in_flight s) =
        mset (pairs (results (scan_init H P n E))) + mset (waiting (scan_init H P n E)) +
        mset (in_flight (scan_init H P n E))"
    by (rule run_events_collects_all [OF run])
       (auto simp: scan_init_def results_init_def dedupe_first_seen distinct_first_seen comp_def
                   set_first_seen set_tasks image_image)
  with fin r show ?thesis
    by (simp add: pairs_final_report scan_init_def pairs_results_init)
qed

lemma run_scan_open_only:
  assumes "run_scan w H P tmo n db pr True E sched = Returns r"
  shows "\<forall>e \<in> set (entries r). state e = ''open''"
proof -
  from assms obtain s where run: "run_events w tmo db True (scan_init H P n E) sched = Some s"
    and r: "r = final_report True (results s)"
    by (auto simp: run_scan_def split: if_splits option.splits)
  have "\<forall>e \<in> set (entries (results s)). state e = ''open''"
    by (rule run_events_open_only [OF run]) (simp add: scan_init_def entries_results_init)
  with entries_final_report [of True "results s"] r show ?thesis by auto
qed

lemma run_scan_nonempty:
  assumes "run_scan w H P tmo n db pr oo E sched = Returns r"
  shows "\<forall>(h, es) \<in> set r. es \<noteq> []"
proof -
  from assms obtain s where run: "run_events w tmo db oo (scan_init H P n E) sched = Some s"
    and r: "r = final_report oo (results s)"
    by (auto simp: run_scan_def split: if_splits option.splits)
  from r show ?thesis by (auto dest: final_report_nonempty)
qed

subsection \<open>What the renderings show\<close>

text \<open>
  The (host, port, state) triples that a reader finds on standard output: a port line
  of the pretty rendering belongs to the host line above it, a row carries its host,
  and the JSON document lists every host with its results.
\<close>

definition triples :: "report \<Rightarrow> (string \<times> int \<times> string) list" where
  "triples r = concat (map (\<lambda>(ip, es). map (\<lambda>e. (ip, port e, state e)) es) r)"

fun shown_from :: "string \<Rightarrow> line list \<Rightarrow> (string \<times> int \<times> string) list" where
  "shown_from h [] = []"
| "shown_from h (HostLine ip # ls) = shown_from ip ls"
| "shown_from h (PortLine p st b # ls) = (h, p, st) # shown_from h ls"
| "shown_from h (CsvRow ip p st b # ls) = (ip, p, st) # shown_from h ls"
| "shown_from h (NdjsonRow ip p st b # ls) = (ip, p, st) # shown_from h ls"
| "shown_from h (JsonDoc r # ls) = triples r @ shown_from h ls"
| "shown_from h (Text t # ls) = shown_from h ls"
| "shown_from h (CsvHeader # ls) = shown_from h ls"

definition shown :: "line list \<Rightarrow> (string \<times> int \<times> string) list" where
  "shown ls = shown_from [] ls"

text \<open>The hosts that appear on standard output.\<close>

fun hosts_shown :: "line list \<Rightarrow> string list" where
  "hosts_shown [] = []"
| "hosts_shown (HostLine ip # ls) = ip # hosts_shown ls"
| "hosts_shown (PortLine p st b # ls) = hosts_shown ls"
| "hosts_shown (CsvRow ip p st b # ls) = ip # hosts_shown ls"
| "hosts_shown (NdjsonRow ip p st b # ls) = ip # hosts_shown ls"
| "hosts_shown (JsonDoc r # ls) = map fst r @ hosts_shown ls"
| "hosts_shown (Text t # ls) = hosts_shown ls"
| "hosts_shown (CsvHeader # ls) = hosts_shown ls"

text \<open>The results of each host that the three line-oriented renderers keep, in their order.\<close>

definition visible :: "bool \<Rightarrow> report \<Rightarrow> report" where
  "visible oo r =
     map (\<lambda>(ip, es). (ip, filter (\<lambda>e. \<not> (oo \<and> state e \<noteq> ''open'')) (sort_key port es))) r"

lemma shown_from_csv_rows:
  "shown_from h (map (\<lambda>e. CsvRow ip (port e) (state e) (f e)) es @ ls) =
     map (\<lambda>e. (ip, port e, state e)) es @ shown_from h ls"
  by (induction es) simp_all

lemma shown_from_ndjson_rows:
  "shown_from h (map (\<lambda>e. NdjsonRow ip (port e) (state e) (f e)) es @ ls) =
     map (\<lambda>e. (ip, port e, state e)) es @ shown_from h ls"
  by (induction es) simp_all

lemma shown_from_port_lines:
  "shown_from h (map (\<lambda>e. if state e = ''open'' then PortLine (port e) ''open'' (banner e)
                            else PortLine (port e) ''closed'' []) es @ ls) =
     map (\<lambda>e. (h, port e, if state e = ''open'' then ''open'' else ''closed'')) es @ shown_from h ls"
  by (induction es) simp_all

lemma hosts_shown_port_lines:
  "hosts_shown (map (\<lambda>e. if state e = ''open'' then PortLine (port e) ''open'' (banner e)
                            else PortLine (port e) ''closed'' []) es @ ls) = hosts_shown ls"
  by (induction es) simp_all

lemma shown_print_csv_rows:
  "shown_from h (concat (map (\<lambda>(ip, entries).
       map (\<lambda>e. CsvRow ip (port e) (state e) (double_quotes (banner e)))
         (filter (\<lambda>e. \<not> (oo \<and> state e \<noteq> ''open'')) (sort_key port entries))) r)) =
   triples (visible oo r)"
proof (induction r)
  case Nil
  show ?case by (simp add: triples_def visible_def)
next
  case (Cons kv r)
  obtain k v where kv: "kv = (k, v)" by (cases kv)
  from Cons.IH kv
    shown_from_csv_rows [of h k "\<lambda>e. double_quotes (banner e)"
      "filter (\<lambda>e. \<not> (oo \<and> state e \<noteq> ''open'')) (sort_key port v)"]
  show ?case by (simp add: triples_def visible_def)
qed

lemma shown_print_csv: "shown (print_csv r oo header) = triples (visible oo r)"
  using shown_print_csv_rows [of "[]" oo r]
  by (simp add: print_csv_def shown_def)

lemma shown_print_ndjson: "shown (print_ndjson r oo) = triples (visible oo r)"
proof -
  have "shown_from h (print_ndjson r oo) = triples (visible oo r)" for h
  proof (induction r)
    case Nil
    show ?case by (simp add: triples_def visible_def print_ndjson_def)
  next
    case (Cons kv r)
    obtain k v where kv: "kv = (k, v)" by (cases kv)
    from Cons.IH kv
      shown_from_ndjson_rows [of h k banner
        "filter (\<lambda>e. \<not> (oo \<and> state e \<noteq> ''open'')) (sort_key port v)"]
    show ?case by (simp add: triples_def visible_def print_ndjson_def)
  qed
  then show ?thesis by (simp add: shown_def)
qed

lemma shown_json_dumps: "shown (json_dumps r) = triples (sort_key fst r)"
  by (simp add: shown_def json_dumps_def)

definition closed_unless_open :: "string \<times> int \<times> string \<Rightarrow> string \<times> int \<times> string" where
  "closed_unless_open t = (case t of (h, p, st) \<Rightarrow> (h, p, if st = ''open'' then ''open'' else ''closed''))"

lemma visible_filter:
  "filter (\<lambda>e. \<not> (oo \<and> state e \<noteq> ''open'')) es =
     (if oo then filter (\<lambda>e. state e = ''open'') es else es)"
  by (induction es) auto

lemma shown_print_pretty_blocks:
  "shown_from h (concat (map (\<lambda>(ip, entries0).
          (let entries1 = sort_key port entries0;
               entries = (if oo then filter (\<lambda>e. state e = ''open'') entries1 else entries1)
           in if oo \<and> entries = [] then []
              else HostLine ip #
                   map (\<lambda>e. if state e = ''open'' then PortLine (port e) ''open'' (banner e)
                             else PortLine (port e) ''closed'' []) entries)) r)) =
   map closed_unless_open (triples (visible oo r))"
proof (induction r arbitrary: h)
  case Nil
  show ?case by (simp add: triples_def visible_def)
next
  case (Cons kv r)
  obtain k v where kv: "kv = (k, v)" by (cases kv)
  let ?es = "filter (\<lambda>e. \<not> (oo \<and> state e \<noteq> ''open'')) (sort_key port v)"
  have tr: "triples (visible oo (kv # r)) = map (\<lambda>e. (k, port e, state e)) ?es @ triples (visible oo r)"
    using kv by (simp add: triples_def visible_def)
  show ?case
  proof (cases "oo \<and> ?es = []")
    case True
    then have oo: "oo" by simp
    with True have emp: "filter (\<lambda>e. state e = ''open'') (sort_key port v) = []"
      by simp
    from oo emp tr have "triples (visible oo (kv # r)) = triples (visible oo r)" by simp
    with kv Cons.IH [of h] oo emp show ?thesis
      by (simp add: Let_def)
  next
    case False
    with kv Cons.IH [of k] tr shown_from_port_lines [of k ?es]
    show ?thesis
      by (auto simp: visible_filter Let_def closed_unless_open_def comp_def)
  qed
qed

lemma shown_print_pretty:
  "shown (print_pretty r oo) = map closed_unless_open (triples (visible oo r))"
proof (cases "r = []")
  case True
  then show ?thesis by (simp add: print_pretty_def shown_def triples_def visible_def)
next
  case False
  with shown_print_pretty_blocks [of "[]" oo r] show ?thesis
    by (simp add: print_pretty_def shown_def)
qed

lemma hosts_print_pretty_blocks:
  "hosts_shown (concat (map (\<lambda>(ip, entries0).
          (let entries1 = sort_key port entries0;
               entries = (if oo then filter (\<lambda>e. state e = ''open'') entries1 else entries1)
           in if oo \<and> entries = [] then []
              else HostLine ip #
                   map (\<lambda>e. if state e = ''open'' then PortLine (port e) ''open'' (banner e)
                             else PortLine (port e) ''closed'' []) entries)) r)) =
   map fst (filter (\<lambda>(ip, es). \<not> (oo \<and> es = [])) (visible oo r))"
proof (induction r)
  case Nil
  show ?case by (simp add: visible_def)
next
  case (Cons kv r)
  obtain k v where kv: "kv = (k, v)" by (cases kv)
  let ?es = "filter (\<lambda>e. \<not> (oo \<and> state e \<noteq> ''open'')) (sort_key port v)"
  have vis: "visible oo (kv # r) = (k, ?es) # visible oo r"
    using kv by (simp add: visible_def)
  show ?case
  proof (cases "oo \<and> ?es = []")
    case True
    then have oo: "oo" by simp
    with True have emp: "filter (\<lambda>e. state e = ''open'') (sort_key port v) = []"
      by simp
    from oo emp vis have "filter (\<lambda>(ip, es). \<not> (oo \<and> es = [])) (visible oo (kv # r)) =
        filter (\<lambda>(ip, es). \<not> (oo \<and> es = [])) (visible oo r)" by simp
    with kv Cons.IH oo emp show ?thesis
      by (simp add: Let_def)
  next
    case False
    with kv Cons.IH vis hosts_shown_port_lines [of ?es]
    show ?thesis
      by (auto simp: visible_filter Let_def)
  qed
qed

lemma hosts_print_pretty:
  "hosts_shown (print_pretty r oo) = map fst (filter (\<lambda>(ip, es). \<not> (oo \<and> es = [])) (visible oo r))"
proof (cases "r = []")
  case True
  then show ?thesis by (simp add: print_pretty_def visible_def)
next
  case False
  with hosts_print_pretty_blocks [of oo r] show ?thesis
    by (simp add: print_pretty_def)
qed

lemma hosts_rows_csv:
  "hosts_shown (map (\<lambda>e. CsvRow ip (port e) (state e) (f e)) es @ ls) =
     map (\<lambda>e. ip) es @ hosts_shown ls"
  by (induction es) simp_all

lemma hosts_rows_ndjson:
  "hosts_shown (map (\<lambda>e. NdjsonRow ip (port e) (state e) (f e)) es @ ls) =
     map (\<lambda>e. ip) es @ hosts_shown ls"
  by (induction es) simp_all

lemma hosts_print_csv: "hosts_shown (print_csv r oo header) = map fst (triples (visible oo r))"
proof -
  have "hosts_shown (concat (map (\<lambda>(ip, entries).
       map (\<lambda>e. CsvRow ip (port e) (state e) (double_quotes (banner e)))
         (filter (\<lambda>e. \<not> (oo \<and> state e \<noteq> ''open'')) (sort_key port entries))) r)) =
     map fst (triples (visible oo r))"
  proof (induction r)
    case Nil
    show ?case by (simp add: triples_def visible_def)
  next
    case (Cons kv r)
    obtain k v where kv: "kv = (k, v)" by (cases kv)
    from Cons.IH kv
      hosts_rows_csv [of k "\<lambda>e. double_quotes (banner e)"
        "filter (\<lambda>e. \<not> (oo \<and> state e \<noteq> ''open'')) (sort_key port v)"]
    show ?case by (simp add: triples_def visible_def comp_def)
  qed
  then show ?thesis by (simp add: print_csv_def)
qed

lemma hosts_print_ndjson: "hosts_shown (print_ndjson r oo) = map fst (triples (visible oo r))"
proof (induction r)
  case Nil
  show ?case by (simp add: triples_def visible_def print_ndjson_def)
next
  case (Cons kv r)
  obtain k v where kv: "kv = (k, v)" by (cases kv)
  from Cons.IH kv
    hosts_rows_ndjson [of k banner
      "filter (\<lambda>e. \<not> (oo \<and> state e \<noteq> ''open'')) (sort_key port v)"]
  show ?case by (simp add: triples_def visible_def print_ndjson_def comp_def)
qed

lemma hosts_json_dumps: "hosts_shown (json_dumps r) = map fst (sort_key fst r)"
  by (simp add: json_dumps_def)

lemma in_triples:
  "(h, p, st) \<in> set (triples r) \<longleftrightarrow> (\<exists>es e. (h, es) \<in> set r \<and> e \<in> set es \<and> p = port e \<and> st = state e)"
  by (auto simp: triples_def)

lemma in_visible:
  "(h, es) \<in> set (visible oo r) \<longleftrightarrow>
     (\<exists>es0. (h, es0) \<in> set r \<and> es = filter (\<lambda>e. \<not> (oo \<and> state e \<noteq> ''open'')) (sort_key port es0))"
  by (auto simp: visible_def)

lemma entries_mem: "e \<in> set (entries r) \<longleftrightarrow> (\<exists>h es. (h, es) \<in> set r \<and> e \<in> set es)"
  by (force simp: entries_def)

lemma visible_all_open:
  assumes "oo \<longrightarrow> (\<forall>e \<in> set (entries r). state e = ''open'')"
  shows "visible oo r = map (\<lambda>(ip, es). (ip, sort_key port es)) r"
proof -
  have "filter (\<lambda>e. \<not> (oo \<and> state e \<noteq> ''open'')) (sort_key port es) = sort_key port es"
    if "(h, es) \<in> set r" for h es
  proof -
    from that assms have "\<forall>e \<in> set es. \<not> (oo \<and> state e \<noteq> ''open'')"
      by (auto simp: entries_mem)
    then show ?thesis by simp
  qed
  then show ?thesis by (auto simp: visible_def)
qed

lemma pairs_triples: "map (\<lambda>(h, p, st). (h, p)) (triples r) = pairs r"
  by (induction r) (auto simp: triples_def pairs_def)

lemma pairs_closed_unless_open:
  "map (\<lambda>(h, p, st). (h, p)) (map closed_unless_open ts) = map (\<lambda>(h, p, st). (h, p)) ts"
  by (induction ts) (auto simp: closed_unless_open_def)

lemma mset_pairs_sorted: "mset (pairs (map (\<lambda>(ip, es). (ip, sort_key port es)) r)) = mset (pairs r)"
  by (induction r) (auto simp: pairs_def)

lemma mset_pairs_sort_hosts: "mset (pairs (sort_key fst r)) = mset (pairs r)"
proof -
  have "mset (pairs xs) = sum_mset (image_mset (\<lambda>(ip, es). mset (map (\<lambda>e. (ip, port e)) es)) (mset xs))"
    for xs :: report
    by (induction xs) (auto simp: pairs_def)
  then show ?thesis by simp
qed

lemma render_cases:
  assumes "arg_json a \<Longrightarrow> Q (json_dumps r)"
    and "\<not> arg_json a \<Longrightarrow> arg_csv a \<Longrightarrow> Q (print_csv r (arg_open_only a) (arg_csv_header a))"
    and "\<not> arg_json a \<Longrightarrow> \<not> arg_csv a \<Longrightarrow> arg_ndjson a \<Longrightarrow> Q (print_ndjson r (arg_open_only a))"
    and "\<not> arg_json a \<Longrightarrow> \<not> arg_csv a \<Longrightarrow> \<not> arg_ndjson a \<Longrightarrow> Q (print_pretty r (arg_open_only a))"
  shows "Q (render a r)"
  using assms by (simp add: render_def)

lemma entries_memI: "(h, es) \<in> set r \<Longrightarrow> e \<in> set es \<Longrightarrow> e \<in> set (entries r)"
  by (auto simp: entries_mem)

lemma visible_open:
  assumes "(h, p, st) \<in> set (triples (visible True r))"
  shows "st = ''open''"
  using assms by (auto simp: in_triples in_visible)

lemma render_states:
  assumes "arg_open_only a"
    and "\<forall>e \<in> set (entries r). state e = ''open''"
    and "(h, p, st) \<in> set (shown (render a r))"
  shows "st = ''open''"
proof -
  have "\<forall>(h, p, st) \<in> set (shown (render a r)). st = ''open''"
  proof (rule render_cases)
    show "\<forall>(h, p, st) \<in> set (shown (json_dumps r)). st = ''open''"
    proof clarify
      fix h p st
      assume "(h, p, st) \<in> set (shown (json_dumps r))"
      then obtain es e where "(h, es) \<in> set r" "e \<in> set es" "st = state e"
        by (auto simp: shown_json_dumps in_triples)
      with entries_memI [of h es r e] assms(2) show "st = ''open''" by blast
    qed
    show "\<forall>(h, p, st) \<in> set (shown (print_csv r (arg_open_only a) (arg_csv_header a))). st = ''open''"
      using assms(1) by (auto simp: shown_print_csv dest: visible_open)
    show "\<forall>(h, p, st) \<in> set (shown (print_ndjson r (arg_open_only a))). st = ''open''"
      using assms(1) by (auto simp: shown_print_ndjson dest: visible_open)
    show "\<forall>(h, p, st) \<in> set (shown (print_pretty r (arg_open_only a))). st = ''open''"
      using assms(1) by (auto simp: shown_print_pretty closed_unless_open_def dest: visible_open)
  qed
  with assms(3) show ?thesis by blast
qed

lemma render_hosts:
  assumes "\<forall>(h, es) \<in> set r. es \<noteq> []"
    and "arg_open_only a \<longrightarrow> (\<forall>e \<in> set (entries r). state e = ''open'')"
    and "h \<in> set (hosts_shown (render a r))"
  shows "\<exists>p st. (h, p, st) \<in> set (shown (render a r))"
proof -
  let ?oo = "arg_open_only a"
  note vis = visible_all_open [OF assms(2)]
  have "\<forall>h \<in> set (hosts_shown (render a r)). \<exists>p st. (h, p, st) \<in> set (shown (render a r))"
  proof (rule render_cases [where Q = "\<lambda>ls. \<forall>h \<in> set (hosts_shown ls). \<exists>p st. (h, p, st) \<in> set (shown ls)"])
    show "\<forall>h \<in> set (hosts_shown (json_dumps r)). \<exists>p st. (h, p, st) \<in> set (shown (json_dumps r))"
    proof
      fix h
      assume "h \<in> set (hosts_shown (json_dumps r))"
      then obtain es where "(h, es) \<in> set r" by (auto simp: hosts_json_dumps)
      moreover with assms(1) obtain e where "e \<in> set es" by (cases es) auto
      ultimately have "(h, port e, state e) \<in> set (shown (json_dumps r))"
        by (auto simp: shown_json_dumps in_triples)
      then show "\<exists>p st. (h, p, st) \<in> set (shown (json_dumps r))" by blast
    qed
    show "\<forall>h \<in> set (hosts_shown (print_csv r ?oo (arg_csv_header a))).
            \<exists>p st. (h, p, st) \<in> set (shown (print_csv r ?oo (arg_csv_header a)))"
      by (force simp: hosts_print_csv shown_print_csv)
    show "\<forall>h \<in> set (hosts_shown (print_ndjson r ?oo)). \<exists>p st. (h, p, st) \<in> set (shown (print_ndjson r ?oo))"
      by (force simp: hosts_print_ndjson shown_print_ndjson)
    show "\<forall>h \<in> set (hosts_shown (print_pretty r ?oo)). \<exists>p st. (h, p, st) \<in> set (shown (print_pretty r ?oo))"
    proof
      fix h
      assume "h \<in> set (hosts_shown (print_pretty r ?oo))"
      then obtain es where "(h, es) \<in> set r"
        by (auto simp: hosts_print_pretty vis)
      moreover with assms(1) obtain e where "e \<in> set es" by (cases es) auto
      ultimately have "(h, port e, state e) \<in> set (triples (visible ?oo r))"
        by (force simp: vis in_triples)
      then have "closed_unless_open (h, port e, state e) \<in> set (shown (print_pretty r ?oo))"
        by (simp add: shown_print_pretty)
      then show "\<exists>p st. (h, p, st) \<in> set (shown (print_pretty r ?oo))"
        by (auto simp: closed_unless_open_def)
    qed
  qed
  with assms(3) show ?thesis by blast
qed

lemma render_pairs:
  assumes "arg_open_only a \<longrightarrow> (\<forall>e \<in> set (entries r). state e = ''open'')"
  shows "mset (map (\<lambda>(h, p, st). (h, p)) (shown (render a r))) = mset (pairs r)"
proof (rule render_cases [where Q = "\<lambda>ls. mset (map (\<lambda>(h, p, st). (h, p)) (shown ls)) = mset (pairs r)"])
  note vis = visible_all_open [OF assms]
  show "mset (map (\<lambda>(h, p, st). (h, p)) (shown (json_dumps r))) = mset (pairs r)"
    by (simp add: shown_json_dumps pairs_triples mset_pairs_sort_hosts)
  show "mset (map (\<lambda>(h, p, st). (h, p)) (shown (print_csv r (arg_open_only a) (arg_csv_header a)))) = mset (pairs r)"
    by (simp add: shown_print_csv pairs_triples vis mset_pairs_sorted)
  show "mset (map (\<lambda>(h, p, st). (h, p)) (shown (print_ndjson r (arg_open_only a)))) = mset (pairs r)"
    by (simp add: shown_print_ndjson pairs_triples vis mset_pairs_sorted)
  show "mset (map (\<lambda>(h, p, st). (h, p)) (shown (print_pretty r (arg_open_only a)))) = mset (pairs r)"
    by (simp only: shown_print_pretty pairs_closed_unless_open pairs_triples vis mset_pairs_sorted)
qed

text \<open>
  C5. For the report of a scan and each of the four renderings: in open-only mode every
  result in the report and every result shown is open, no host of the report has an
  empty list, and every host shown has an open result shown; in show-all mode the
  (host, port) pairs shown are exactly the probed pairs, each as often as it was probed.
\<close>

theorem open_only_rendering:
  assumes "run_scan w H P tmo n db pr (arg_open_only a) E sched = Returns r"
  shows "(arg_open_only a \<longrightarrow>
            (\<forall>(h, es) \<in> set r. es \<noteq> [] \<and> (\<forall>e \<in> set es. state e = ''open'')) \<and>
            (\<forall>(h, p, st) \<in> set (shown (render a r)). st = ''open'') \<and>
            (\<forall>h \<in> set (hosts_shown (render a r)). \<exists>p. (h, p, ''open'') \<in> set (shown (render a r)))) \<and>
         (\<not> arg_open_only a \<longrightarrow>
            mset (map (\<lambda>(h, p, st). (h, p)) (shown (render a r))) =
            mset (tasks H (filter (\<lambda>p. p \<notin> E) P)))"
proof (intro conjI impI)
  assume oo: "arg_open_only a"
  with assms have ret: "run_scan w H P tmo n db pr True E sched = Returns r" by simp
  have op: "\<forall>e \<in> set (entries r). state e = ''open''"
    by (rule run_scan_open_only [OF ret])
  from assms have ne: "\<forall>(h, es) \<in> set r. es \<noteq> []"
    by (rule run_scan_nonempty)
  show "\<forall>(h, es) \<in> set r. es \<noteq> [] \<and> (\<forall>e \<in> set es. state e = ''open'')"
  proof clarify
    fix h es
    assume mem: "(h, es) \<in> set r"
    with ne have "es \<noteq> []" by blast
    moreover have "\<forall>e \<in> set es. state e = ''open''"
      using op entries_memI [OF mem] by blast
    ultimately show "es \<noteq> [] \<and> (\<forall>e \<in> set es. state e = ''open'')" by simp
  qed
  show st: "\<forall>(h, p, st) \<in> set (shown (render a r)). st = ''open''"
  proof clarify
    fix h p st
    assume "(h, p, st) \<in> set (shown (render a r))"
    then show "st = ''open''" by (rule render_states [OF oo op])
  qed
  show "\<forall>h \<in> set (hosts_shown (render a r)). \<exists>p. (h, p, ''open'') \<in> set (shown (render a r))"
  proof
    fix h
    assume h: "h \<in> set (hosts_shown (render a r))"
    from op have op': "arg_open_only a \<longrightarrow> (\<forall>e \<in> set (entries r). state e = ''open'')" by simp
    from render_hosts [OF ne op' h]
    obtain p st where sh: "(h, p, st) \<in> set (shown (render a r))" by blast
    then have "st = ''open''" by (rule render_states [OF oo op])
    with sh show "\<exists>p. (h, p, ''open'') \<in> set (shown (render a r))" by blast
  qed
next
  assume all: "\<not> arg_open_only a"
  with assms have ret: "run_scan w H P tmo n db pr False E sched = Returns r" by simp
  have "mset (pairs r) = mset (tasks H (filter (\<lambda>p. p \<notin> E) P))"
    by (rule run_scan_all_pairs [OF ret])
  moreover from all have "arg_open_only a \<longrightarrow> (\<forall>e \<in> set (entries r). state e = ''open'')" by simp
  then have "mset (map (\<lambda>(h, p, st). (h, p)) (shown (render a r))) = mset (pairs r)"
    by (rule render_pairs)
  ultimately show "mset (map (\<lambda>(h, p, st). (h, p)) (shown (render a r))) =
        mset (tasks H (filter (\<lambda>p. p \<notin> E) P))"
    by simp
qed

text \<open>Two example scans: an open-only one over two hosts, and the arguments of two runs.\<close>

definition open_only_sched :: "event list" where
  "open_only_sched = [Acquire 0, Acquire 2, Complete 1 down, Complete 0 up,
                      Acquire 0, Acquire 0, Complete 0 down, Complete 0 down]"

definition pretty_args :: args where
  "pretty_args = default_args [''10.0.0.1'', ''10.0.0.2'']"

definition csv_all_args :: args where
  "csv_all_args = (default_args [''10.0.0.1''])\<lparr>arg_csv := True, arg_open_only := False\<rparr>"

lemma open_only_example:
  "run_scan w0 [''10.0.0.1'', ''10.0.0.2''] [22, 80] 1.2 2 True False True {} open_only_sched =
   Returns [(''10.0.0.1'', [\<lparr>port = 22, state = ''open'', banner = ''SSH-2.0''\<rparr>])]"
  by code_simp

theorem open_only_rendering_witness:
  "arg_open_only pretty_args \<and>
   run_scan w0 [''10.0.0.1'', ''10.0.0.2''] [22, 80] 1.2 2 True False (arg_open_only pretty_args) {}
     open_only_sched =
   Returns [(''10.0.0.1'', [\<lparr>port = 22, state = ''open'', banner = ''SSH-2.0''\<rparr>])] \<and>
   render pretty_args [(''10.0.0.1'', [\<lparr>port = 22, state = ''open'', banner = ''SSH-2.0''\<rparr>])] =
     [HostLine ''10.0.0.1'', PortLine 22 ''open'' ''SSH-2.0''] \<and>
   list_all (\<lambda>(h, p, st). st = ''open'')
     (shown (render pretty_args [(''10.0.0.1'', [\<lparr>port = 22, state = ''open'', banner = ''SSH-2.0''\<rparr>])])) \<and>
   \<not> arg_open_only csv_all_args \<and>
   run_scan w0 [''10.0.0.1''] [22, 80, 443] 1.2 1 True False (arg_open_only csv_all_args) {80}
     [Acquire 0, Complete 0 up, Acquire 0, Complete 0 down] =
   Returns [(''10.0.0.1'', [\<lparr>port = 22, state = ''open'', banner = ''SSH-2.0''\<rparr>,
                           \<lparr>port = 443, state = ''closed'', banner = []\<rparr>])] \<and>
   mset (map (\<lambda>(h, p, st). (h, p))
     (shown (render csv_all_args
        [(''10.0.0.1'', [\<lparr>port = 22, state = ''open'', banner = ''SSH-2.0''\<rparr>,
                        \<lparr>port = 443, state = ''closed'', banner = []\<rparr>])]))) =
   mset (tasks [''10.0.0.1''] (filter (\<lambda>p. p \<notin> {80}) [22, 80, 443]))"
proof -
  let ?r1 = "[(''10.0.0.1'', [\<lparr>port = 22, state = ''open'', banner = ''SSH-2.0''\<rparr>])]"
  let ?r2 = "[(''10.0.0.1'', [\<lparr>port = 22, state = ''open'', banner = ''SSH-2.0''\<rparr>,
                             \<lparr>port = 443, state = ''closed'', banner = []\<rparr>])]"
  have oo1: "arg_open_only pretty_args"
    by (simp add: pretty_args_def default_args_def)
  have oo2: "\<not> arg_open_only csv_all_args"
    by (simp add: csv_all_args_def)
  have run1: "run_scan w0 [''10.0.0.1'', ''10.0.0.2''] [22, 80] 1.2 2 True False
                (arg_open_only pretty_args) {} open_only_sched = Returns ?r1"
    using open_only_example oo1 by simp
  have run2: "run_scan w0 [''10.0.0.1''] [22, 80, 443] 1.2 1 True False (arg_open_only csv_all_args) {80}
                [Acquire 0, Complete 0 up, Acquire 0, Complete 0 down] = Returns ?r2"
    using scan_example oo2 by simp
  have out: "render pretty_args ?r1 = [HostLine ''10.0.0.1'', PortLine 22 ''open'' ''SSH-2.0'']"
    by code_simp
  from open_only_rendering [OF run1] oo1
  have "\<forall>(h, p, st) \<in> set (shown (render pretty_args ?r1)). st = ''open''"
    by blast
  then have shown1: "list_all (\<lambda>(h, p, st). st = ''open'') (shown (render pretty_args ?r1))"
    by (simp add: list_all_iff)
  from open_only_rendering [OF run2] oo2
  have pairs2: "mset (map (\<lambda>(h, p, st). (h, p)) (shown (render csv_all_args ?r2))) =
                mset (tasks [''10.0.0.1''] (filter (\<lambda>p. p \<notin> {80}) [22, 80, 443]))"
    by blast
  from oo1 oo2 run1 run2 out shown1 pairs2 show ?thesis
    by blast
qed

text \<open>
  C10. In open-only mode a task whose probe fails leaves \<open>results\<close> as it is, so every
  result in every state of the scan is open; the report that \<open>run_scan\<close> returns holds
  open results only, and the JSON rendering, which prints that report with its hosts
  sorted and nothing filtered, shows open results only.
\<close>

theorem open_only_at_collection:
  "(\<not> fst (fst (probe w net ip p tmo db)) \<longrightarrow>
      task_finish w tmo db True net r0 (ip, p) = r0) \<and>
   (run_events w tmo db True (scan_init H P n E) evs = Some s \<longrightarrow>
      (\<forall>e \<in> set (entries (results s)). state e = ''open'')) \<and>
   (run_scan w H P tmo n db pr True E sched = Returns r \<longrightarrow>
      (\<forall>e \<in> set (entries r). state e = ''open'') \<and>
      json_dumps r = [JsonDoc (sort_key fst r)] \<and>
      (\<forall>(h, p, st) \<in> set (shown (json_dumps r)). st = ''open''))"
proof (intro conjI impI)
  assume "\<not> fst (fst (probe w net ip p tmo db))"
  then show "task_finish w tmo db True net r0 (ip, p) = r0"
    by (cases "fst (probe w net ip p tmo db)") (simp add: task_finish_def)
next
  assume run: "run_events w tmo db True (scan_init H P n E) evs = Some s"
  show "\<forall>e \<in> set (entries (results s)). state e = ''open''"
    by (rule run_events_open_only [OF run]) (simp add: scan_init_def entries_results_init)
next
  assume ret: "run_scan w H P tmo n db pr True E sched = Returns r"
  show op: "\<forall>e \<in> set (entries r). state e = ''open''"
    by (rule run_scan_open_only [OF ret])
  show "json_dumps r = [JsonDoc (sort_key fst r)]"
    by (simp add: json_dumps_def)
  show "\<forall>(h, p, st) \<in> set (shown (json_dumps r)). st = ''open''"
  proof clarify
    fix h p st
    assume "(h, p, st) \<in> set (shown (json_dumps r))"
    then obtain es e where "(h, es) \<in> set r" "e \<in> set es" "st = state e"
      by (auto simp: shown_json_dumps in_triples)
    with entries_memI [of h es r e] op show "st = ''open''" by blast
  qed
qed

lemma open_only_prefix:
  "run_events w0 1.2 True True (scan_init [''10.0.0.1'', ''10.0.0.2''] [22, 80] 2 {})
     [Acquire 0, Acquire 2, Complete 1 down, Complete 0 up] =
   Some \<lparr>sem_value = 2, waiting = [(''10.0.0.1'', 80), (''10.0.0.2'', 22)], in_flight = [],
         results = [(''10.0.0.1'', [\<lparr>port = 22, state = ''open'', banner = ''SSH-2.0''\<rparr>]),
                    (''10.0.0.2'', [])],
         done_count = 2\<rparr>"
  by code_simp

theorem open_only_at_collection_witness:
  "\<not> fst (fst (probe w0 down ''10.0.0.2'' 80 1.2 True)) \<and>
   task_finish w0 1.2 True True down [(''10.0.0.2'', [])] (''10.0.0.2'', 80) = [(''10.0.0.2'', [])] \<and>
   run_events w0 1.2 True True (scan_init [''10.0.0.1'', ''10.0.0.2''] [22, 80] 2 {})
     [Acquire 0, Acquire 2, Complete 1 down, Complete 0 up] =
   Some \<lparr>sem_value = 2, waiting = [(''10.0.0.1'', 80), (''10.0.0.2'', 22)], in_flight = [],
         results = [(''10.0.0.1'', [\<lparr>port = 22, state = ''open'', banner = ''SSH-2.0''\<rparr>]),
                    (''10.0.0.2'', [])],
         done_count = 2\<rparr> \<and>
   run_scan w0 [''10.0.0.1'', ''10.0.0.2''] [22, 80] 1.2 2 True False True {} open_only_sched =
   Returns [(''10.0.0.1'', [\<lparr>port = 22, state = ''open'', banner = ''SSH-2.0''\<rparr>])] \<and>
   list_all (\<lambda>e. state e = ''open'')
     (entries [(''10.0.0.1'', [\<lparr>port = 22, state = ''open'', banner = ''SSH-2.0''\<rparr>])]) \<and>
   list_all (\<lambda>(h, p, st). st = ''open'')
     (shown (json_dumps [(''10.0.0.1'', [\<lparr>port = 22, state = ''open'', banner = ''SSH-2.0''\<rparr>])]))"
proof -
  let ?r1 = "[(''10.0.0.1'', [\<lparr>port = 22, state = ''open'', banner = ''SSH-2.0''\<rparr>])]"
  have closed: "\<not> fst (fst (probe w0 down ''10.0.0.2'' 80 1.2 True))"
    by code_simp
  note inst = open_only_at_collection [where w = w0 and net = down and ip = "''10.0.0.2''" and p = 80
      and tmo = "1.2" and db = True and ?r0.0 = "[(''10.0.0.2'', [])]"
      and H = "[''10.0.0.1'', ''10.0.0.2'']" and P = "[22, 80]" and n = 2 and E = "{}"
      and evs = "[Acquire 0, Acquire 2, Complete 1 down, Complete 0 up]"
      and pr = False and sched = open_only_sched and r = ?r1]
  from inst closed
  have same: "task_finish w0 1.2 True True down [(''10.0.0.2'', [])] (''10.0.0.2'', 80) = [(''10.0.0.2'', [])]"
    by blast
  from inst open_only_example
  have "\<forall>e \<in> set (entries ?r1). state e = ''open''"
    and "\<forall>(h, p, st) \<in> set (shown (json_dumps ?r1)). st = ''open''"
    by blast+
  then have lists: "list_all (\<lambda>e. state e = ''open'') (entries ?r1)"
      "list_all (\<lambda>(h, p, st). st = ''open'') (shown (json_dumps ?r1))"
    by (simp_all add: list_all_iff)
  from closed same open_only_prefix open_only_example lists show ?thesis
    by blast
qed

subsection \<open>Banner Prober\<close>

lemma probe_ok:
  "fst (fst (probe w net ip p tmo db)) \<longleftrightarrow> net (OpenConnection ip p tmo) \<noteq> None \<and> net Close \<noteq> None"
  by (auto simp: probe_def Let_def split: option.splits prod.splits)

lemma probe_reads:
  "Read k t \<in> set (snd (probe w net ip p tmo db)) \<Longrightarrow> db \<and> k = 128 \<and> t = min 0.6 tmo"
  by (auto simp: probe_def Let_def split: option.splits prod.splits if_splits)

lemma probe_banner_source:
  assumes "snd (fst (probe w net ip p tmo db)) \<noteq> []"
  shows "db \<and> (\<exists>data. net (Read 128 (min 0.6 tmo)) = Some data \<and>
           snd (fst (probe w net ip p tmo db)) = strip (decode w (take 128 data)))"
  using assms by (auto simp: probe_def Let_def split: option.splits prod.splits if_splits)

lemma probe_banner_failure:
  assumes "net (OpenConnection ip p tmo) \<noteq> None" and "net Close \<noteq> None"
    and "net (Write CRLF) = None \<or> net Drain = None \<or> net (Read 128 (min 0.6 tmo)) = None"
  shows "fst (probe w net ip p tmo True) = (True, [])"
  using assms by (auto simp: probe_def Let_def split: option.splits prod.splits)

text \<open>
  C8. Every read that a probe issues asks for 128 bytes under the timeout
  \<open>min(0.6, timeout)\<close>; a banner that is not empty is the stripped decoding of at most
  128 bytes returned by that read; the probe reports open exactly when the connection
  was established and closed without an exception, whatever happens in between; and when
  the write, the drain or the read of the banner sequence fails on such a connection,
  the probe returns open with the empty banner and its task records state open with an
  empty banner.
\<close>

theorem probe_banner:
  "(\<forall>k t. Read k t \<in> set (snd (probe w net ip p tmo db)) \<longrightarrow> db \<and> k = 128 \<and> t = min 0.6 tmo) \<and>
   (snd (fst (probe w net ip p tmo db)) \<noteq> [] \<longrightarrow>
      db \<and> (\<exists>data. net (Read 128 (min 0.6 tmo)) = Some data \<and> length (take 128 data) \<le> 128 \<and>
               snd (fst (probe w net ip p tmo db)) = strip (decode w (take 128 data)))) \<and>
   (fst (fst (probe w net ip p tmo db)) \<longleftrightarrow>
      net (OpenConnection ip p tmo) \<noteq> None \<and> net Close \<noteq> None) \<and>
   (net (OpenConnection ip p tmo) \<noteq> None \<and> net Close \<noteq> None \<and>
    (net (Write CRLF) = None \<or> net Drain = None \<or> net (Read 128 (min 0.6 tmo)) = None) \<longrightarrow>
      fst (probe w net ip p tmo True) = (True, []) \<and>
      task_finish w tmo True oo net r (ip, p) =
        results_append r ip \<lparr>port = p, state = ''open'', banner = []\<rparr>)"
proof (intro conjI allI impI)
  fix k t
  assume "Read k t \<in> set (snd (probe w net ip p tmo db))"
  from probe_reads [OF this] show "db" "k = 128" "t = min 0.6 tmo" by simp_all
next
  assume b: "snd (fst (probe w net ip p tmo db)) \<noteq> []"
  from probe_banner_source [OF b] show "db" by simp
  from probe_banner_source [OF b]
  show "\<exists>data. net (Read 128 (min 0.6 tmo)) = Some data \<and> length (take 128 data) \<le> 128 \<and>
               snd (fst (probe w net ip p tmo db)) = strip (decode w (take 128 data))"
    by auto
next
  show "fst (fst (probe w net ip p tmo db)) \<longleftrightarrow>
      net (OpenConnection ip p tmo) \<noteq> None \<and> net Close \<noteq> None"
    by (rule probe_ok)
next
  assume a: "net (OpenConnection ip p tmo) \<noteq> None \<and> net Close \<noteq> None \<and>
    (net (Write CRLF) = None \<or> net Drain = None \<or> net (Read 128 (min 0.6 tmo)) = None)"
  then show pr: "fst (probe w net ip p tmo True) = (True, [])"
    by (intro probe_banner_failure) simp_all
  then show "task_finish w tmo True oo net r (ip, p) =
        results_append r ip \<lparr>port = p, state = ''open'', banner = []\<rparr>"
    by (simp add: task_finish_def)
qed

text \<open>A peer that accepts the connection and then stays silent: every read times out.\<close>

definition silent :: net where
  "silent = (\<lambda>c. case c of Read k t \<Rightarrow> None | _ \<Rightarrow> Some [])"

theorem probe_banner_witness:
  "probe w0 up ''10.0.0.1'' 22 1.2 True =
     ((True, ''SSH-2.0''),
      [OpenConnection ''10.0.0.1'' 22 1.2, Write CRLF, Drain, Read 128 0.6, Close, WaitClosed]) \<and>
   Read 128 0.6 \<in> set (snd (probe w0 up ''10.0.0.1'' 22 1.2 True)) \<and>
   (128 :: nat) = 128 \<and> (0.6 :: real) = min 0.6 1.2 \<and>
   snd (fst (probe w0 up ''10.0.0.1'' 22 1.2 True)) \<noteq> [] \<and>
   (\<exists>data. up (Read 128 (min 0.6 1.2)) = Some data \<and> length (take 128 data) \<le> 128 \<and>
      snd (fst (probe w0 up ''10.0.0.1'' 22 1.2 True)) = strip (decode w0 (take 128 data))) \<and>
   silent (OpenConnection ''10.0.0.1'' 22 0.3) \<noteq> None \<and> silent Close \<noteq> None \<and>
   silent (Read 128 (min 0.6 0.3)) = None \<and>
   fst (probe w0 silent ''10.0.0.1'' 22 0.3 True) = (True, []) \<and>
   task_finish w0 0.3 True True silent [(''10.0.0.1'', [])] (''10.0.0.1'', 22) =
     results_append [(''10.0.0.1'', [])] ''10.0.0.1'' \<lparr>port = 22, state = ''open'', banner = []\<rparr>"
proof -
  have run: "probe w0 up ''10.0.0.1'' 22 1.2 True =
     ((True, ''SSH-2.0''),
      [OpenConnection ''10.0.0.1'' 22 1.2, Write CRLF, Drain, Read 128 0.6, Close, WaitClosed])"
    by code_simp
  then have rd: "Read 128 0.6 \<in> set (snd (probe w0 up ''10.0.0.1'' 22 1.2 True))"
    and ne: "snd (fst (probe w0 up ''10.0.0.1'' 22 1.2 True)) \<noteq> []"
    by simp_all
  have s: "silent (OpenConnection ''10.0.0.1'' 22 0.3) \<noteq> None" "silent Close \<noteq> None"
      "silent (Read 128 (min 0.6 0.3)) = None"
    by (simp_all add: silent_def)
  note up_inst = probe_banner [where w = w0 and net = up and ip = "''10.0.0.1''" and p = 22
      and tmo = "1.2" and db = True]
  note silent_inst = probe_banner [where w = w0 and net = silent and ip = "''10.0.0.1''" and p = 22
      and tmo = "0.3" and db = True and oo = True and r = "[(''10.0.0.1'', [])]"]
  from up_inst rd have "(128 :: nat) = 128 \<and> (0.6 :: real) = min 0.6 1.2"
    by blast
  moreover from up_inst ne
  have "\<exists>data. up (Read 128 (min 0.6 1.2)) = Some data \<and> length (take 128 data) \<le> 128 \<and>
      snd (fst (probe w0 up ''10.0.0.1'' 22 1.2 True)) = strip (decode w0 (take 128 data))"
    by blast
  moreover from silent_inst s
  have "fst (probe w0 silent ''10.0.0.1'' 22 0.3 True) = (True, []) \<and>
   task_finish w0 0.3 True True silent [(''10.0.0.1'', [])] (''10.0.0.1'', 22) =
     results_append [(''10.0.0.1'', [])] ''10.0.0.1'' \<lparr>port = 22, state = ''open'', banner = []\<rparr>"
    by blast
  ultimately show ?thesis using run rd ne s by blast
qed

subsection \<open>Target Resolver\<close>

lemma first_seen_append:
  "first_seen (xs @ ys) = first_seen xs @ filter (\<lambda>y. y \<notin> set xs) (first_seen ys)"
proof (induction xs)
  case Nil
  show ?case by simp
next
  case (Cons x xs)
  have "removeAll x (filter (\<lambda>y. y \<notin> set xs) zs) = filter (\<lambda>y. y \<notin> set (x # xs)) zs" for zs
    by (induction zs) auto
  with Cons.IH show ?case by simp
qed

lemma filter_first_seen: "filter Q (first_seen xs) = first_seen (filter Q xs)"
proof (induction xs)
  case Nil
  show ?case by simp
next
  case (Cons x xs)
  have comm: "filter Q (removeAll x zs) = removeAll x (filter Q zs)" for zs
    by (induction zs) auto
  show ?case
  proof (cases "Q x")
    case True
    with Cons.IH comm show ?thesis by simp
  next
    case False
    then have "x \<notin> set (first_seen (filter Q xs))" by (simp add: set_first_seen)
    then have "removeAll x (first_seen (filter Q xs)) = first_seen (filter Q xs)" by simp
    with False Cons.IH comm show ?thesis by simp
  qed
qed

lemma first_seen_idem: "first_seen (first_seen xs) = first_seen xs"
proof -
  have "distinct ys \<Longrightarrow> first_seen ys = ys" for ys :: "'a list"
    by (induction ys) (simp_all add: set_first_seen)
  then show ?thesis by (simp add: distinct_first_seen)
qed

lemma first_seen_concat_cong:
  assumes "\<forall>x \<in> set xs. first_seen (f x) = first_seen (g x)"
  shows "first_seen (concat (map f xs)) = first_seen (concat (map g xs))"
  using assms
proof (induction xs)
  case Nil
  show ?case by simp
next
  case (Cons x xs)
  then have fx: "first_seen (f x) = first_seen (g x)"
    and rest: "first_seen (concat (map f xs)) = first_seen (concat (map g xs))"
    by simp_all
  from fx have "set (first_seen (f x)) = set (first_seen (g x))" by simp
  then have "set (f x) = set (g x)" by (simp add: set_first_seen)
  with fx rest show ?case by (simp add: first_seen_append)
qed

lemma first_seen_concat_dedup:
  "first_seen (concat (map g (first_seen xs))) = first_seen (concat (map g xs))"
proof (induction xs)
  case Nil
  show ?case by simp
next
  case (Cons x xs)
  have drop: "filter (\<lambda>y. y \<notin> set (g x)) (concat (map g (removeAll x zs))) =
              filter (\<lambda>y. y \<notin> set (g x)) (concat (map g zs))" for zs
    by (induction zs) auto
  have "first_seen (concat (map g (first_seen (x # xs)))) =
        first_seen (g x) @ filter (\<lambda>y. y \<notin> set (g x)) (first_seen (concat (map g (removeAll x (first_seen xs)))))"
    by (simp add: first_seen_append)
  also have "filter (\<lambda>y. y \<notin> set (g x)) (first_seen (concat (map g (removeAll x (first_seen xs))))) =
             filter (\<lambda>y. y \<notin> set (g x)) (first_seen (concat (map g (first_seen xs))))"
    by (simp only: filter_first_seen drop)
  also have "first_seen (concat (map g (first_seen xs))) = first_seen (concat (map g xs))"
    by (rule Cons.IH)
  finally show ?case by (simp add: first_seen_append)
qed

text \<open>
  The specification's expansion, token by token: the tokens are the targets, stripped,
  the empty ones left out; a token with a slash stands for the hosts of its network, a
  literal address for itself, and any other token for the IPv4 and IPv6 addresses that
  name resolution returns for it.
\<close>

definition tokens :: "string list \<Rightarrow> string list" where
  "tokens targets = filter (\<lambda>t. t \<noteq> []) (map strip targets)"

definition token_addresses :: "world \<Rightarrow> string \<Rightarrow> error + string list" where
  "token_addresses w t =
     (if CHR ''/'' \<in> set t then ip_network_hosts w t
      else if ip_address w t then Inr [t]
      else (case getaddrinfo w t of
              Inl e \<Rightarrow> Inl e
            | Inr infos \<Rightarrow> Inr (map snd (filter (\<lambda>(fam, ip). fam = AF_INET \<or> fam = AF_INET6) infos))))"

definition full_expansion :: "world \<Rightarrow> string list \<Rightarrow> string list" where
  "full_expansion w targets = concat (map (\<lambda>t. projr (token_addresses w t)) (tokens targets))"

text \<open>What \<open>expand_targets\<close> puts in place of one token.\<close>

definition expand_token :: "world \<Rightarrow> string \<Rightarrow> error + string list" where
  "expand_token w t = (if CHR ''/'' \<in> set t then ip_network_hosts w t else Inr [t])"

lemma expand_targets_loop_eq:
  assumes "\<forall>t \<in> set (tokens targets). \<not> isl (expand_token w t)"
  shows "expand_targets_loop w targets out =
           Inr (out @ concat (map (\<lambda>t. projr (expand_token w t)) (tokens targets)))"
  using assms
proof (induction targets arbitrary: out)
  case Nil
  show ?case by (simp add: tokens_def)
next
  case (Cons t0 ts)
  show ?case
  proof (cases "strip t0 = []")
    case True
    with Cons show ?thesis by (simp add: tokens_def)
  next
    case False
    with Cons.prems have ok: "\<not> isl (expand_token w (strip t0))"
      and rest: "\<forall>t \<in> set (tokens ts). \<not> isl (expand_token w t)"
      by (simp_all add: tokens_def)
    from ok obtain hs where hs: "expand_token w (strip t0) = Inr hs"
      by (cases "expand_token w (strip t0)") auto
    with False Cons.IH [OF rest] show ?thesis
      by (auto simp: tokens_def expand_token_def Let_def split: if_splits)
  qed
qed

lemma expand_targets_eq:
  assumes "\<forall>t \<in> set (tokens targets). \<not> isl (expand_token w t)"
  shows "expand_targets w targets =
           Inr (first_seen (concat (map (\<lambda>t. projr (expand_token w t)) (tokens targets))))"
  by (simp add: expand_targets_def expand_targets_loop_eq [OF assms] dedupe_first_seen)

text \<open>What \<open>materialize_ips\<close> puts in place of one token of \<open>expand_targets\<close>.\<close>

definition materialize_token :: "world \<Rightarrow> string \<Rightarrow> error + string list" where
  "materialize_token w tok = (if ip_address w tok then Inr [tok] else resolve_target w tok)"

lemma materialize_ips_loop_eq:
  assumes "\<forall>t \<in> set toks. \<not> isl (materialize_token w t)"
  shows "materialize_ips_loop w toks ips =
           Inr (ips @ concat (map (\<lambda>t. projr (materialize_token w t)) toks))"
  using assms
proof (induction toks arbitrary: ips)
  case Nil
  show ?case by simp
next
  case (Cons tok rest)
  then have ok: "\<not> isl (materialize_token w tok)"
    and others: "\<forall>t \<in> set rest. \<not> isl (materialize_token w t)"
    by simp_all
  from ok obtain rs where rs: "materialize_token w tok = Inr rs"
    by (cases "materialize_token w tok") auto
  with Cons.IH [OF others] show ?case
    by (auto simp: materialize_token_def split: if_splits)
qed

lemma materialize_ips_eq:
  assumes "\<forall>t \<in> set toks. \<not> isl (materialize_token w t)"
  shows "materialize_ips w toks =
           Inr (first_seen (concat (map (\<lambda>t. projr (materialize_token w t)) toks)))"
  by (simp add: materialize_ips_def materialize_ips_loop_eq [OF assms] dedupe_first_seen)

lemma concat_map_concat: "concat (map f (concat xss)) = concat (map (\<lambda>xs. concat (map f xs)) xss)"
  by (induction xss) simp_all

lemma concat_map_singletons: "\<forall>x \<in> set xs. f x = [x] \<Longrightarrow> concat (map f xs) = xs"
  by (induction xs) simp_all

lemma expand_targets_example:
  assumes "ip_network_hosts w ''192.168.0.0/30'' = Inr [''192.168.0.1'', ''192.168.0.2'']"
  shows "expand_targets w [''192.168.0.0/30'', ''192.168.0.1''] = Inr [''192.168.0.1'', ''192.168.0.2'']"
proof -
  have s1: "strip ''192.168.0.0/30'' = ''192.168.0.0/30''" by code_simp
  have s2: "strip ''192.168.0.1'' = ''192.168.0.1''" by code_simp
  from assms s1 s2 show ?thesis
    by (simp add: expand_targets_def Let_def)
qed

text \<open>
  C7. Provided the hosts of a network are literal addresses, and no token's network
  expansion or name resolution raises: \<open>expand_targets\<close> returns a list without
  repetitions, and \<open>materialize_ips\<close> applied to it returns the full expansion of the
  targets (network hosts, literal addresses and resolved addresses, token by token) with
  every address kept at its first occurrence only. In particular, when \<open>192.168.0.0/30\<close>
  has the hosts \<open>.1\<close> and \<open>.2\<close>, expanding \<open>["192.168.0.0/30", "192.168.0.1"]\<close> gives
  \<open>["192.168.0.1", "192.168.0.2"]\<close>, where \<open>192.168.0.1\<close> occurs once.
\<close>

theorem target_expansion:
  assumes cidr: "\<forall>t hs. ip_network_hosts w t = Inr hs \<longrightarrow> (\<forall>h \<in> set hs. ip_address w h)"
    and ok: "\<forall>t \<in> set (tokens targets). \<not> isl (token_addresses w t)"
  shows "(\<exists>toks. expand_targets w targets = Inr toks \<and> distinct toks \<and>
            materialize_ips w toks = Inr (first_seen (full_expansion w targets))) \<and>
         distinct (first_seen (full_expansion w targets)) \<and>
         set (first_seen (full_expansion w targets)) = set (full_expansion w targets) \<and>
         (ip_network_hosts w ''192.168.0.0/30'' = Inr [''192.168.0.1'', ''192.168.0.2''] \<longrightarrow>
            expand_targets w [''192.168.0.0/30'', ''192.168.0.1''] =
              Inr [''192.168.0.1'', ''192.168.0.2''] \<and>
            count_list [''192.168.0.1'', ''192.168.0.2''] ''192.168.0.1'' = 1)"
proof -
  let ?E = "\<lambda>t. projr (expand_token w t)"
  let ?M = "\<lambda>t. projr (materialize_token w t)"
  let ?T = "\<lambda>t. projr (token_addresses w t)"
  let ?X = "concat (map ?E (tokens targets))"
  have ex_ok: "\<forall>t \<in> set (tokens targets). \<not> isl (expand_token w t)"
    using ok by (auto simp: expand_token_def token_addresses_def)
  from expand_targets_eq [OF ex_ok]
  have toks: "expand_targets w targets = Inr (first_seen ?X)" .
  have per_token: "(\<forall>tok \<in> set (?E t). \<not> isl (materialize_token w tok)) \<and>
      first_seen (concat (map ?M (?E t))) = first_seen (?T t)"
    if t: "t \<in> set (tokens targets)" for t
  proof (cases "CHR ''/'' \<in> set t")
    case True
    from ok t obtain hs where hs: "token_addresses w t = Inr hs"
      by (cases "token_addresses w t") auto
    with True have net: "ip_network_hosts w t = Inr hs"
      by (simp add: token_addresses_def)
    with cidr have lit: "\<forall>h \<in> set hs. ip_address w h" by blast
    then have m: "\<forall>h \<in> set hs. ?M h = [h]"
      by (simp add: materialize_token_def)
    from True net have e: "?E t = hs" by (simp add: expand_token_def)
    from lit have "\<forall>tok \<in> set hs. \<not> isl (materialize_token w tok)"
      by (simp add: materialize_token_def)
    with e hs concat_map_singletons [OF m] show ?thesis by simp
  next
    case False
    then have e: "?E t = [t]" by (simp add: expand_token_def)
    show ?thesis
    proof (cases "ip_address w t")
      case True
      with False e show ?thesis
        by (simp add: materialize_token_def token_addresses_def)
    next
      case lit: False
      from ok t obtain as where as: "token_addresses w t = Inr as"
        by (cases "token_addresses w t") auto
      with False lit obtain infos where infos: "getaddrinfo w t = Inr infos"
        and as_eq: "as = map snd (filter (\<lambda>(fam, ip). fam = AF_INET \<or> fam = AF_INET6) infos)"
        by (auto simp: token_addresses_def split: sum.splits)
      from lit infos as_eq have "materialize_token w t = Inr (first_seen as)"
        by (simp add: materialize_token_def resolve_target_def dedupe_first_seen)
      with e as show ?thesis by (simp add: first_seen_idem)
    qed
  qed
  have m_ok: "\<forall>tok \<in> set (first_seen ?X). \<not> isl (materialize_token w tok)"
    using per_token by (auto simp: set_first_seen)
  from materialize_ips_eq [OF m_ok]
  have "materialize_ips w (first_seen ?X) = Inr (first_seen (concat (map ?M (first_seen ?X))))" .
  also have "first_seen (concat (map ?M (first_seen ?X))) = first_seen (concat (map ?M ?X))"
    by (rule first_seen_concat_dedup)
  also have "concat (map ?M ?X) = concat (map (\<lambda>t. concat (map ?M (?E t))) (tokens targets))"
    by (simp add: concat_map_concat comp_def)
  also have "first_seen \<dots> = first_seen (concat (map ?T (tokens targets)))"
    by (rule first_seen_concat_cong) (use per_token in blast)
  finally have out: "materialize_ips w (first_seen ?X) = Inr (first_seen (full_expansion w targets))"
    by (simp add: full_expansion_def)
  from toks out have "\<exists>toks. expand_targets w targets = Inr toks \<and> distinct toks \<and>
            materialize_ips w toks = Inr (first_seen (full_expansion w targets))"
    by (simp add: distinct_first_seen)
  moreover have "ip_network_hosts w ''192.168.0.0/30'' = Inr [''192.168.0.1'', ''192.168.0.2''] \<longrightarrow>
            expand_targets w [''192.168.0.0/30'', ''192.168.0.1''] =
              Inr [''192.168.0.1'', ''192.168.0.2''] \<and>
            count_list [''192.168.0.1'', ''192.168.0.2''] ''192.168.0.1'' = 1"
    by (simp add: expand_targets_example)
  ultimately show ?thesis
    by (simp add: distinct_first_seen set_first_seen)
qed

theorem target_expansion_witness:
  "list_all (ip_address w0) [''192.168.0.1'', ''192.168.0.2''] \<and>
   list_all (\<lambda>t. \<not> isl (token_addresses w0 t))
     (tokens [''192.168.0.0/30'', '' 192.168.0.1'', '''', ''a.example'', ''10.0.0.1'']) \<and>
   full_expansion w0 [''192.168.0.0/30'', '' 192.168.0.1'', '''', ''a.example'', ''10.0.0.1''] =
     [''192.168.0.1'', ''192.168.0.2'', ''192.168.0.1'', ''10.0.0.1'', ''::1'', ''10.0.0.1'', ''10.0.0.1''] \<and>
   (\<exists>toks. expand_targets w0 [''192.168.0.0/30'', '' 192.168.0.1'', '''', ''a.example'', ''10.0.0.1''] = Inr toks \<and>
      distinct toks \<and>
      materialize_ips w0 toks = Inr [''192.168.0.1'', ''192.168.0.2'', ''10.0.0.1'', ''::1'']) \<and>
   ip_network_hosts w0 ''192.168.0.0/30'' = Inr [''192.168.0.1'', ''192.168.0.2''] \<and>
   expand_targets w0 [''192.168.0.0/30'', ''192.168.0.1''] = Inr [''192.168.0.1'', ''192.168.0.2'']"
proof -
  let ?ts = "[''192.168.0.0/30'', '' 192.168.0.1'', '''', ''a.example'', ''10.0.0.1'']"
  have cidr: "\<forall>t hs. ip_network_hosts w0 t = Inr hs \<longrightarrow> (\<forall>h \<in> set hs. ip_address w0 h)"
    by (auto simp: w0_def split: if_splits)
  have lits: "list_all (ip_address w0) [''192.168.0.1'', ''192.168.0.2'']"
    by code_simp
  have ok: "list_all (\<lambda>t. \<not> isl (token_addresses w0 t)) (tokens ?ts)"
    by code_simp
  then have ok': "\<forall>t \<in> set (tokens ?ts). \<not> isl (token_addresses w0 t)"
    by (simp add: list_all_iff)
  have full: "full_expansion w0 ?ts =
     [''192.168.0.1'', ''192.168.0.2'', ''192.168.0.1'', ''10.0.0.1'', ''::1'', ''10.0.0.1'', ''10.0.0.1'']"
    by code_simp
  have fs: "first_seen [''192.168.0.1'', ''192.168.0.2'', ''192.168.0.1'', ''10.0.0.1'', ''::1'',
                        ''10.0.0.1'', ''10.0.0.1''] =
            [''192.168.0.1'', ''192.168.0.2'', ''10.0.0.1'', ''::1'']"
    by code_simp
  have net: "ip_network_hosts w0 ''192.168.0.0/30'' = Inr [''192.168.0.1'', ''192.168.0.2'']"
    by (simp add: w0_def)
  note inst = target_expansion [OF cidr ok']
  from inst full fs
  have "\<exists>toks. expand_targets w0 ?ts = Inr toks \<and> distinct toks \<and>
      materialize_ips w0 toks = Inr [''192.168.0.1'', ''192.168.0.2'', ''10.0.0.1'', ''::1'']"
    by simp
  moreover from inst net
  have "expand_targets w0 [''192.168.0.0/30'', ''192.168.0.1''] = Inr [''192.168.0.1'', ''192.168.0.2'']"
    by blast
  ultimately show ?thesis using lits ok full net by blast
qed

subsection \<open>\<open>main\<close>: input errors\<close>

text \<open>The working port list of a scan: \<open>[p for p in ports if p not in exclude]\<close>.\<close>

definition working_ports :: "int list \<Rightarrow> int set \<Rightarrow> int list" where
  "working_ports ps excl = filter (\<lambda>p. p \<notin> excl) ps"

definition exclude_all_args :: args where
  "exclude_all_args = (default_args [''10.0.0.1''])\<lparr>arg_ports := ''22'', arg_exclude := Some ''22''\<rparr>"

definition no_valid_port_args :: args where
  "no_valid_port_args = (default_args [''10.0.0.1''])\<lparr>arg_ports := ''0,70000''\<rparr>"

text \<open>
  The claim C2 as stated fails: with ports \<open>22\<close> and exclusion \<open>22\<close> the working port list
  is empty, and \<open>main\<close> prints the empty pretty report and returns 0.
\<close>

theorem empty_after_exclusion_counterexample:
  "read_input w0 exclude_all_args = Inr ([''10.0.0.1''], [22], {22}) \<and>
   working_ports [22] {22} = [] \<and>
   main w0 exclude_all_args False [] = Returns (0, [Text ''No open ports found.'']) \<and>
   (0 :: int) \<noteq> 2"
  by code_simp

lemma run_events_no_tasks:
  assumes "waiting s = []" and "in_flight s = []"
  shows "run_events w tmo db oo s evs = (if evs = [] then Some s else None)"
proof (cases evs)
  case Nil
  then show ?thesis by simp
next
  case (Cons ev rest)
  with assms show ?thesis
    by (cases ev) (simp_all add: step_def)
qed

lemma run_scan_no_tasks:
  assumes "0 \<le> n" and "filter (\<lambda>p. p \<notin> excl) ps = []"
  shows "run_scan w ips ps tmo n db pr oo excl sched = (if sched = [] then Returns [] else NoReturn)"
proof -
  let ?s = "scan_init ips ps n excl"
  from assms(2) have w: "waiting ?s = []" and f: "in_flight ?s = []"
    by (simp_all add: scan_init_def tasks_def)
  have "final_report oo (map (\<lambda>ip. (ip, [])) xs) = []" for xs :: "string list"
    by (induction xs) (simp_all add: final_report_def)
  then have "final_report oo (results ?s) = []"
    by (simp add: scan_init_def results_init_def)
  with assms(1) w f run_events_no_tasks [OF w f, of w tmo db oo sched] show ?thesis
    by (simp add: run_scan_def)
qed

text \<open>
  C2, amended. When the parsed port list is empty before the exclusion set is looked at,
  \<open>main\<close> returns 2 whatever the interleaving: no scan is started. When the input is
  valid, at least one host resolves, the capacity is not negative and only the
  subtraction of the exclusion set empties the port list, no task is created; \<open>main\<close>
  returns 0 with the rendering of the empty report, and no interleaving with a probe
  event lets it return.
\<close>

theorem empty_port_list:
  "(parse_ports (arg_ports a) = Inr [] \<longrightarrow> main w a ctrl_c sched = Returns (2, [])) \<and>
   (read_input w a = Inr (toks, ps, excl) \<and> working_ports ps excl = [] \<and>
    materialize_ips w toks = Inr ips \<and> ips \<noteq> [] \<and> 0 \<le> arg_concurrency a \<longrightarrow>
      ps \<noteq> [] \<and> tasks ips (working_ports ps excl) = [] \<and>
      main w a False [] = Returns (0, render a []) \<and>
      (sched \<noteq> [] \<longrightarrow> main w a False sched = NoReturn))"
proof (intro conjI impI)
  assume "parse_ports (arg_ports a) = Inr []"
  then have "isl (read_input w a)"
    by (simp add: read_input_def split: sum.splits)
  then show "main w a ctrl_c sched = Returns (2, [])"
    by (cases "read_input w a") (simp_all add: main_def)
next
  assume a: "read_input w a = Inr (toks, ps, excl) \<and> working_ports ps excl = [] \<and>
    materialize_ips w toks = Inr ips \<and> ips \<noteq> [] \<and> 0 \<le> arg_concurrency a"
  then show "ps \<noteq> []"
    by (auto simp: read_input_def split: sum.splits if_splits)
  from a show "tasks ips (working_ports ps excl) = []"
    by (simp add: tasks_def)
  from a have emp: "filter (\<lambda>p. p \<notin> excl) ps = []" and n: "0 \<le> arg_concurrency a"
    by (simp_all add: working_ports_def)
  note scan = run_scan_no_tasks [OF n emp, of w ips "arg_timeout a" "\<not> arg_no_banner a"
      "arg_progress a" "arg_open_only a"]
  from a scan [of "[]"] show "main w a False [] = Returns (0, render a [])"
    by (simp add: main_def)
  assume "sched \<noteq> []"
  with a scan [of sched] show "main w a False sched = NoReturn"
    by (simp add: main_def)
qed

theorem empty_port_list_witness:
  "parse_ports (arg_ports no_valid_port_args) = Inr [] \<and>
   main w0 no_valid_port_args False [] = Returns (2, []) \<and>
   read_input w0 exclude_all_args = Inr ([''10.0.0.1''], [22], {22}) \<and>
   working_ports [22] {22} = [] \<and>
   materialize_ips w0 [''10.0.0.1''] = Inr [''10.0.0.1''] \<and>
   (0 :: int) \<le> arg_concurrency exclude_all_args \<and>
   main w0 exclude_all_args False [] = Returns (0, render exclude_all_args []) \<and>
   main w0 exclude_all_args False [Acquire 0] = NoReturn"
proof -
  have p: "parse_ports (arg_ports no_valid_port_args) = Inr []" by code_simp
  have r: "read_input w0 exclude_all_args = Inr ([''10.0.0.1''], [22], {22})" by code_simp
  have wp: "working_ports [22] {22} = []" by code_simp
  have m: "materialize_ips w0 [''10.0.0.1''] = Inr [''10.0.0.1'']" by code_simp
  have c: "(0 :: int) \<le> arg_concurrency exclude_all_args" by code_simp
  from empty_port_list [where a = no_valid_port_args and w = w0 and ctrl_c = False and sched = "[]"] p
  have "main w0 no_valid_port_args False [] = Returns (2, [])" by blast
  moreover
  from empty_port_list [where a = exclude_all_args and w = w0 and toks = "[''10.0.0.1'']"
      and ps = "[22]" and excl = "{22}" and ips = "[''10.0.0.1'']" and sched = "[Acquire 0]"]
    r wp m c
  have "main w0 exclude_all_args False [] = Returns (0, render exclude_all_args []) \<and>
        main w0 exclude_all_args False [Acquire 0] = NoReturn"
    by simp
  ultimately show ?thesis using p r wp m c by blast
qed

subsection \<open>\<open>main\<close>: a hostname that does not resolve\<close>

text \<open>
  C3. The claim holds of the specification and fails on the code: \<open>resolve_target\<close>
  lets the \<open>socket.gaierror\<close> of \<open>getaddrinfo\<close> pass, \<open>materialize_ips\<close> lets it pass,
  and \<open>main\<close> catches \<open>KeyboardInterrupt\<close> only. One unresolvable name among the
  targets ends the run with that exception, also when another target is a literal
  address; the branch that returns 2 for an empty host list is not reached.
\<close>

theorem resolution_failure_escapes:
  "getaddrinfo w0 ''nosuch.invalid'' = Inl GaiError \<and>
   resolve_target w0 ''nosuch.invalid'' = Inl GaiError \<and>
   materialize_ips w0 [''nosuch.invalid'', ''10.0.0.1''] = Inl GaiError \<and>
   main w0 (default_args [''nosuch.invalid'', ''10.0.0.1'']) False [] = Raises GaiError \<and>
   main w0 (default_args [''nosuch.invalid'']) False [] = Raises GaiError"
  by code_simp

subsection \<open>Order of the rendered results\<close>

text \<open>The ports of one host in the order in which a rendering shows them.\<close>

definition ports_shown :: "string \<Rightarrow> line list \<Rightarrow> int list" where
  "ports_shown h ls = map (\<lambda>t. fst (snd t)) (filter (\<lambda>t. fst t = h) (shown ls))"

lemma ports_of_triples:
  "distinct (map fst r) \<Longrightarrow> (h, es) \<in> set r \<Longrightarrow>
     map (\<lambda>t. fst (snd t)) (filter (\<lambda>t. fst t = h) (triples r)) = map port es"
proof (induction r)
  case Nil
  then show ?case by simp
next
  case (Cons kv r)
  obtain k v where kv: "kv = (k, v)" by (cases kv)
  have none: "filter (\<lambda>t. fst t = h) (triples r') = []" if "h \<notin> fst ` set r'" for r' :: report
    using that by (induction r') (auto simp: triples_def)
  have own: "filter (\<lambda>t. fst t = h) (map (\<lambda>e. (k, port e, state e)) v) =
             (if k = h then map (\<lambda>e. (k, port e, state e)) v else [])"
    by (induction v) auto
  have split: "triples (kv # r) = map (\<lambda>e. (k, port e, state e)) v @ triples r"
    using kv by (simp add: triples_def)
  show ?case
  proof (cases "k = h")
    case True
    with Cons.prems kv have "h \<notin> fst ` set r" and "es = v" by (auto simp: image_iff)
    with none [of r] own True split show ?thesis by (simp add: comp_def)
  next
    case False
    with Cons.prems kv have "distinct (map fst r)" "(h, es) \<in> set r" by auto
    from Cons.IH [OF this] own False split show ?thesis by simp
  qed
qed

lemma ports_closed_unless_open:
  "map (\<lambda>t. fst (snd t)) (filter (\<lambda>t. fst t = h) (map closed_unless_open ts)) =
   map (\<lambda>t. fst (snd t)) (filter (\<lambda>t. fst t = h) ts)"
  by (induction ts) (auto simp: closed_unless_open_def)

lemma fst_visible: "map fst (visible oo r) = map fst r"
  by (induction r) (auto simp: visible_def)

lemma sorted_visible: "(h, es) \<in> set (visible oo r) \<Longrightarrow> sorted (map port es)"
proof -
  assume "(h, es) \<in> set (visible oo r)"
  then obtain es0 where "es = filter (\<lambda>e. \<not> (oo \<and> state e \<noteq> ''open'')) (sort_key port es0)"
    by (auto simp: in_visible)
  moreover have "sorted (map port (filter Q (sort_key port es0)))" for Q
    by (rule sorted_filter) simp
  ultimately show ?thesis by simp
qed

text \<open>
  The three line-oriented renderers sort: whatever the order of a host's results in the
  report, the ports they show for the host ascend.
\<close>

lemma line_renderers_sorted:
  assumes "\<not> arg_json a" and "distinct (map fst r)"
  shows "sorted (ports_shown h (render a r))"
proof -
  let ?v = "visible (arg_open_only a) r"
  have v: "sorted (map (\<lambda>t. fst (snd t)) (filter (\<lambda>t. fst t = h) (triples ?v)))"
  proof (cases "h \<in> fst ` set ?v")
    case True
    then obtain es where es: "(h, es) \<in> set ?v" by auto
    from assms(2) have "distinct (map fst ?v)" by (simp add: fst_visible)
    from ports_of_triples [OF this es] sorted_visible [OF es] show ?thesis by simp
  next
    case False
    have "filter (\<lambda>t. fst t = h) (triples r') = []" if "h \<notin> fst ` set r'" for r' :: report
      using that by (induction r') (auto simp: triples_def)
    from this [OF False] show ?thesis by simp
  qed
  from assms(1) have "shown (render a r) = triples ?v \<or> shown (render a r) = map closed_unless_open (triples ?v)"
    by (simp add: render_def shown_print_csv shown_print_ndjson shown_print_pretty)
  with v show ?thesis
    by (auto simp: ports_shown_def ports_closed_unless_open)
qed

definition json_args :: args where
  "json_args = (default_args [''10.0.0.1''])\<lparr>arg_ports := ''22,80'', arg_json := True\<rparr>"

definition csv_args :: args where
  "csv_args = (default_args [''10.0.0.1''])\<lparr>arg_ports := ''22,80'', arg_csv := True\<rparr>"

definition late_first_sched :: "event list" where
  "late_first_sched = [Acquire 0, Acquire 0, Complete 1 up, Complete 0 up]"

text \<open>
  C4. The claim fails on the code for the JSON rendering: \<open>json.dumps\<close> prints each
  host's list in the order in which the probes completed. When port 80 answers before
  port 22, the JSON document lists 80 before 22, while the CSV rendering of the same
  scan lists 22 before 80.
\<close>

theorem json_keeps_completion_order:
  "main w0 json_args False late_first_sched =
     Returns (0, [JsonDoc [(''10.0.0.1'', [\<lparr>port = 80, state = ''open'', banner = ''SSH-2.0''\<rparr>,
                                          \<lparr>port = 22, state = ''open'', banner = ''SSH-2.0''\<rparr>])]]) \<and>
   ports_shown ''10.0.0.1''
     [JsonDoc [(''10.0.0.1'', [\<lparr>port = 80, state = ''open'', banner = ''SSH-2.0''\<rparr>,
                              \<lparr>port = 22, state = ''open'', banner = ''SSH-2.0''\<rparr>])]] = [80, 22] \<and>
   \<not> sorted [80, 22 :: int] \<and>
   main w0 csv_args False late_first_sched =
     Returns (0, [CsvRow ''10.0.0.1'' 22 ''open'' ''SSH-2.0'', CsvRow ''10.0.0.1'' 80 ''open'' ''SSH-2.0'']) \<and>
   ports_shown ''10.0.0.1''
     [CsvRow ''10.0.0.1'' 22 ''open'' ''SSH-2.0'', CsvRow ''10.0.0.1'' 80 ''open'' ''SSH-2.0''] = [22, 80]"
  by code_simp

subsection \<open>A scan with a free slot can run to its end\<close>

lemma run_events_append:
  "run_events w tmo db oo s (xs @ ys) =
     (case run_events w tmo db oo s xs of None \<Rightarrow> None | Some s' \<Rightarrow> run_events w tmo db oo s' ys)"
  by (induction xs arbitrary: s) (auto split: option.splits)

lemma sequential_run:
  assumes "0 < sem_value s" and "in_flight s = []"
  shows "\<exists>evs s'. run_events w tmo db oo s evs = Some s' \<and> waiting s' = [] \<and> in_flight s' = []"
  using assms
proof (induction "length (waiting s)" arbitrary: s)
  case 0
  then have "run_events w tmo db oo s [] = Some s \<and> waiting s = [] \<and> in_flight s = []"
    by simp
  then show ?case by blast
next
  case (Suc k)
  let ?s1 = "s\<lparr>sem_value := sem_value s - 1, waiting := remove_nth 0 (waiting s),
               in_flight := in_flight s @ [waiting s ! 0]\<rparr>"
  let ?s2 = "?s1\<lparr>sem_value := sem_value ?s1 + 1, in_flight := remove_nth 0 (in_flight ?s1),
               results := task_finish w tmo db oo (\<lambda>c. None) (results ?s1) (in_flight ?s1 ! 0),
               done_count := done_count ?s1 + 1\<rparr>"
  from Suc.hyps(2) have len: "0 < length (waiting s)" by linarith
  with Suc.prems have a: "step w tmo db oo s (Acquire 0) = Some ?s1"
    by (simp add: step_def)
  from Suc.prems have c: "step w tmo db oo ?s1 (Complete 0 (\<lambda>c. None)) = Some ?s2"
    by (simp add: step_def)
  from Suc.hyps(2) len have k: "k = length (waiting ?s2)"
    by (simp add: length_remove_nth)
  from Suc.prems have "0 < sem_value ?s2" "in_flight ?s2 = []"
    by (simp_all add: remove_nth_def)
  from Suc.hyps(1) [OF k this] obtain evs s' where
    rest: "run_events w tmo db oo ?s2 evs = Some s'" "waiting s' = []" "in_flight s' = []"
    by blast
  from a c rest(1) have "run_events w tmo db oo s (Acquire 0 # Complete 0 (\<lambda>c. None) # evs) = Some s'"
    by simp
  with rest(2,3) show ?case by blast
qed

lemma run_scan_can_return:
  assumes "0 < n"
  shows "\<exists>sched r. run_scan w ips ps tmo n db pr oo excl sched = Returns r"
proof -
  from assms have "0 < sem_value (scan_init ips ps n excl)" "in_flight (scan_init ips ps n excl) = []"
    by (simp_all add: scan_init_def)
  from sequential_run [OF this, of w tmo db oo] obtain evs s' where
    "run_events w tmo db oo (scan_init ips ps n excl) evs = Some s'" "waiting s' = []" "in_flight s' = []"
    by blast
  with assms have "run_scan w ips ps tmo n db pr oo excl evs = Returns (final_report oo (results s'))"
    by (simp add: run_scan_def)
  then show ?thesis by blast
qed

text \<open>With capacity 0 no task ever gets a slot: a scan that has a task does not return.\<close>

lemma step_no_slot:
  assumes "step w tmo db oo s ev = Some s'" and "sem_value s = 0 \<and> in_flight s = []"
  shows "False"
  using assms by (auto simp: step_def split: event.splits if_splits)

lemma run_scan_capacity_zero:
  assumes "tasks ips (filter (\<lambda>p. p \<notin> excl) ps) \<noteq> []"
  shows "run_scan w ips ps tmo 0 db pr oo excl sched = NoReturn"
proof (cases sched)
  case Nil
  with assms show ?thesis by (simp add: run_scan_def scan_init_def)
next
  case (Cons ev evs)
  have "step w tmo db oo (scan_init ips ps 0 excl) ev = None"
  proof (cases "step w tmo db oo (scan_init ips ps 0 excl) ev")
    case (Some s')
    from step_no_slot [OF Some] show ?thesis by (simp add: scan_init_def)
  qed simp
  with Cons show ?thesis by (simp add: run_scan_def)
qed

text \<open>
  A lookup that returns no IPv4 or IPv6 address, unlike one that raises, contributes no
  host: the other targets are still scanned, and \<open>main\<close> returns 2 when no target
  yields an address.
\<close>

definition w1 :: world where
  "w1 = w0\<lparr>getaddrinfo := (\<lambda>t. Inr [(AF_OTHER, ''x'')])\<rparr>"

lemma empty_lookup_tolerated:
  "materialize_ips w1 [''other.example'', ''10.0.0.1''] = Inr [''10.0.0.1''] \<and>
   materialize_ips w1 [''other.example''] = Inr [] \<and>
   main w1 (default_args [''other.example'']) False [] = Returns (2, [])"
  by code_simp

end
